theory Spec2Isabelle
  imports Main
begin

section \<open>The objects State works on\<close>

text \<open>
  \<^verbatim>\<open>syft/messaging/plan/state.py\<close> defines the class \<^verbatim>\<open>State\<close>. Its methods mutate
  Python objects that are shared by reference (placeholders, lists, the ancestor plan,
  the ancestor's State, the worker's registry), so the embedding is an explicit store:
  every object lives at an address, every method takes the store and returns the store
  it leaves behind. An exception is a value \<open>Inl e\<close>, returned together with the store as
  it is at the moment of the raise. The methods embedded are \<^verbatim>\<open>tensors\<close>,
  \<^verbatim>\<open>clone_state_dict\<close>, \<^verbatim>\<open>read\<close>, \<^verbatim>\<open>set_\<close>, \<^verbatim>\<open>simplify\<close> and \<^verbatim>\<open>detail\<close>.
\<close>

type_synonym ref = nat

datatype error = AttributeError

text \<open>A bound value (a tensor or parameter): its \<^verbatim>\<open>.id\<close> and its contents.\<close>

record 'd tensor =
  tensor_id :: int
  payload :: 'd

text \<open>
  Modelled from the spec: the class \<^verbatim>\<open>PlaceHolder\<close> is not in the source file. The spec
  gives it an \<^verbatim>\<open>id\<close>, a set of string \<^verbatim>\<open>tags\<close> and an optional bound value, which the
  source reads as \<^verbatim>\<open>placeholder.child\<close> (\<open>None\<close> is Python's \<^verbatim>\<open>None\<close>).
\<close>

record placeholder =
  ph_id :: int
  tags :: "string set"
  child :: "ref option"

text \<open>The owner of a State is a plan or a worker; \<^verbatim>\<open>read\<close> asks it for \<^verbatim>\<open>init_plan\<close>.\<close>

datatype owner_ref = PlanOwner ref | WorkerOwner ref

text \<open>
  A State object (lines 19 to 21): its owner and its \<^verbatim>\<open>state_placeholders\<close>, which is a
  reference to a list object. The constructor keeps the list object it is given, so two
  State objects can hold the same list object.
\<close>

record state =
  owner :: owner_ref
  state_placeholders :: ref

text \<open>
  Modelled from the spec: the plan collaborator exposes \<^verbatim>\<open>init_plan\<close> (nullable),
  \<^verbatim>\<open>state\<close>, \<^verbatim>\<open>placeholders\<close> (a dict from value id to placeholder) and \<^verbatim>\<open>var_count\<close>.
\<close>

record plan =
  init_plan :: "ref option"
  state :: ref
  placeholders :: "int \<rightharpoonup> ref"
  var_count :: int

text \<open>
  Modelled from the spec: the worker is the receiving context; its registry maps an
  identity to a live value (\<^verbatim>\<open>register_obj\<close>).
\<close>

record worker =
  worker_init_plan :: "ref option"
  objects :: "int \<rightharpoonup> ref"

text \<open>
  The store. Tensors, placeholders, lists and State objects are created by the methods
  below, so each of these four stores has an allocation counter: the next object is
  placed at the counter, and an address below the counter is an object that already
  exists. A list object holds references to placeholders.
\<close>

record 'd heap =
  tensor_store :: "ref \<Rightarrow> 'd tensor"
  tensor_next :: ref
  ph_store :: "ref \<Rightarrow> placeholder"
  ph_next :: ref
  list_store :: "ref \<Rightarrow> ref list"
  list_next :: ref
  state_store :: "ref \<Rightarrow> state"
  state_next :: ref
  plan_store :: "ref \<Rightarrow> plan"
  worker_store :: "ref \<Rightarrow> worker"

text \<open>\<^verbatim>\<open>self.state_placeholders\<close> read as a sequence: the contents of the list object.\<close>

definition placeholder_list :: "'d heap \<Rightarrow> ref \<Rightarrow> ref list" where
  "placeholder_list h self = list_store h (state_placeholders (state_store h self))"

section \<open>Python's \<^verbatim>\<open>str\<close> of an integer\<close>

definition digit_char :: "nat \<Rightarrow> char" where
  "digit_char d = ''0123456789'' ! d"

fun str_nat :: "nat \<Rightarrow> string" where
  "str_nat n = (if n < 10 then [digit_char n] else str_nat (n div 10) @ [digit_char (n mod 10)])"

declare str_nat.simps [simp del]

definition str_int :: "int \<Rightarrow> string" where
  "str_int i = (if i < 0 then CHR ''-'' # str_nat (nat (- i)) else str_nat (nat i))"

section \<open>The placeholder's methods\<close>

text \<open>
  Modelled from the spec: \<^verbatim>\<open>PlaceHolder.copy\<close>, \<^verbatim>\<open>tag\<close> and \<^verbatim>\<open>instantiate\<close> are not in
  the source file. A copy is a new placeholder object with the same id, tags and bound
  value; \<^verbatim>\<open>tag\<close> adds its arguments to the tag set; \<^verbatim>\<open>instantiate\<close> rebinds the value.
\<close>

definition ph_update :: "'d heap \<Rightarrow> ref \<Rightarrow> (placeholder \<Rightarrow> placeholder) \<Rightarrow> 'd heap" where
  "ph_update h a f = h\<lparr>ph_store := (ph_store h)(a := f (ph_store h a))\<rparr>"

definition ph_copy :: "'d heap \<Rightarrow> ref \<Rightarrow> ref \<times> 'd heap" where
  "ph_copy h a =
     (ph_next h, h\<lparr>ph_store := (ph_store h)(ph_next h := ph_store h a), ph_next := Suc (ph_next h)\<rparr>)"

definition set_tags :: "'d heap \<Rightarrow> ref \<Rightarrow> string set \<Rightarrow> 'd heap" where
  "set_tags h a ts = ph_update h a (\<lambda>p. p\<lparr>tags := ts\<rparr>)"

definition tag :: "'d heap \<Rightarrow> ref \<Rightarrow> string list \<Rightarrow> 'd heap" where
  "tag h a ts = ph_update h a (\<lambda>p. p\<lparr>tags := tags p \<union> set ts\<rparr>)"

definition instantiate :: "'d heap \<Rightarrow> ref \<Rightarrow> ref option \<Rightarrow> 'd heap" where
  "instantiate h a v = ph_update h a (\<lambda>p. p\<lparr>child := v\<rparr>)"

section \<open>State.tensors\<close>

text \<open>
  \<^verbatim>\<open>for placeholder in self.state_placeholders: tensors.append(placeholder.child)\<close>:
  the children in placeholder order, \<^verbatim>\<open>None\<close> included.
\<close>

definition tensors :: "'d heap \<Rightarrow> ref \<Rightarrow> ref option list" where
  "tensors h self = map (\<lambda>a. child (ph_store h a)) (placeholder_list h self)"

section \<open>State.read\<close>

definition owner_init_plan :: "'d heap \<Rightarrow> owner_ref \<Rightarrow> ref option" where
  "owner_init_plan h ow =
     (case ow of PlanOwner p \<Rightarrow> init_plan (plan_store h p)
               | WorkerOwner w \<Rightarrow> worker_init_plan (worker_store h w))"

definition plan_update :: "'d heap \<Rightarrow> ref \<Rightarrow> (plan \<Rightarrow> plan) \<Rightarrow> 'd heap" where
  "plan_update h p f = h\<lparr>plan_store := (plan_store h)(p := f (plan_store h p))\<rparr>"

text \<open>\<^verbatim>\<open>list.append\<close> on the list object \<open>l\<close>.\<close>

definition list_append :: "'d heap \<Rightarrow> ref \<Rightarrow> ref \<Rightarrow> 'd heap" where
  "list_append h l a = h\<lparr>list_store := (list_store h)(l := list_store h l @ [a])\<rparr>"

text \<open>\<^verbatim>\<open>parent_plan.state.state_placeholders\<close>: the list object of the ancestor's State.\<close>

definition ancestor_list :: "'d heap \<Rightarrow> ref \<Rightarrow> ref" where
  "ancestor_list h parent_plan =
     state_placeholders (state_store h (state (plan_store h parent_plan)))"

text \<open>
  One pass of the body of the promotion loop (lines 66 to 71) for the placeholder \<open>a\<close>.
  \<^verbatim>\<open>placeholder.child.id\<close> on line 70 raises \<^verbatim>\<open>AttributeError\<close> when the child is
  \<^verbatim>\<open>None\<close>; by then the copy has been appended (line 69) and the counter has not been
  incremented (line 71).
\<close>

definition promote_one :: "ref \<Rightarrow> ref \<Rightarrow> 'd heap \<Rightarrow> error option \<times> 'd heap" where
  "promote_one parent_plan a h =
     (let (c, h1) = ph_copy h a;
          h2 = set_tags h1 c {};
          h3 = tag h2 c [''#inner'', ''#state'',
                 ''#'' @ str_int (var_count (plan_store h2 parent_plan) + 1)];
          h4 = list_append h3 (ancestor_list h3 parent_plan) c
      in case child (ph_store h4 c) of
           None \<Rightarrow> (Some AttributeError, h4)
         | Some v \<Rightarrow>
             (let h5 = plan_update h4 parent_plan
                         (\<lambda>p. p\<lparr>placeholders := (placeholders p)(tensor_id (tensor_store h4 v) \<mapsto> c)\<rparr>);
                  h6 = plan_update h5 parent_plan (\<lambda>p. p\<lparr>var_count := var_count p + 1\<rparr>)
              in (None, h6)))"

text \<open>
  The loop of line 65, \<^verbatim>\<open>for placeholder in self.state_placeholders\<close>, over the list
  object \<open>l\<close>. Python's list iterator keeps an index \<open>i\<close> and asks the list for its length
  at every step, so placeholders that the body appends to \<open>l\<close> are visited too. When
  the ancestor's State holds the list object \<open>l\<close> itself, every pass appends one
  placeholder to the list the loop walks, and the loop does not end: the result is
  \<open>None\<close> when the loop never returns.
\<close>

partial_function (option) promote ::
  "ref \<Rightarrow> ref \<Rightarrow> nat \<Rightarrow> 'd heap \<Rightarrow> (error option \<times> 'd heap) option" where
  "promote parent_plan l i h =
     (if i < length (list_store h l) then
        (case promote_one parent_plan (list_store h l ! i) h of
           (Some e, h') \<Rightarrow> Some (Some e, h')
         | (None, h') \<Rightarrow> promote parent_plan l (Suc i) h')
      else Some (None, h))"

text \<open>
  The same loop over a fixed sequence of placeholders. It is what the loop of line 65
  does when the list it walks is not the list it appends to (lemma
  \<open>promote_promote_list\<close>).
\<close>

fun promote_list :: "ref \<Rightarrow> ref list \<Rightarrow> 'd heap \<Rightarrow> error option \<times> 'd heap" where
  "promote_list parent_plan [] h = (None, h)"
| "promote_list parent_plan (a # as) h =
     (case promote_one parent_plan a h of
        (Some e, h') \<Rightarrow> (Some e, h')
      | (None, h') \<Rightarrow> promote_list parent_plan as h')"

text \<open>Lines 73 to 79: the children of the placeholders of \<^verbatim>\<open>self\<close> not tagged \<^verbatim>\<open>#inner\<close>.\<close>

definition read_values :: "'d heap \<Rightarrow> ref \<Rightarrow> ref option list" where
  "read_values h self =
     map (\<lambda>a. child (ph_store h a))
       (filter (\<lambda>a. ''#inner'' \<notin> tags (ph_store h a)) (placeholder_list h self))"

text \<open>
  \<^verbatim>\<open>read\<close>. The result is \<open>None\<close> when the call never returns, \<open>Some (Inl e, h')\<close> when it
  raises \<open>e\<close> and \<open>Some (Inr vs, h')\<close> when it returns the list \<open>vs\<close>. Line 64 compares the
  two State objects, not their lists.
\<close>

definition read :: "'d heap \<Rightarrow> ref \<Rightarrow> ((error + ref option list) \<times> 'd heap) option" where
  "read h self =
     (case owner_init_plan h (owner (state_store h self)) of
        None \<Rightarrow> Some (Inr (read_values h self), h)
      | Some parent_plan \<Rightarrow>
          if state (plan_store h parent_plan) \<noteq> self then
            (case promote parent_plan (state_placeholders (state_store h self)) 0 h of
               None \<Rightarrow> None
             | Some (Some e, h') \<Rightarrow> Some (Inl e, h')
             | Some (None, h') \<Rightarrow> Some (Inr (read_values h' self), h'))
          else Some (Inr (read_values h self), h))"

text \<open>
  \<^verbatim>\<open>placeholder.child.id\<close>: the id of the bound value, \<open>None\<close> where the placeholder is
  unbound (where Python raises).
\<close>

definition value_id :: "'d heap \<Rightarrow> ref \<Rightarrow> int option" where
  "value_id h a = map_option (\<lambda>v. tensor_id (tensor_store h v)) (child (ph_store h a))"

text \<open>The three tags line 68 gives a promoted copy when the slot counter is \<open>n - 1\<close>.\<close>

definition promoted_tags :: "int \<Rightarrow> string set" where
  "promoted_tags n = {''#inner'', ''#state'', ''#'' @ str_int n}"


text \<open>
  \<^verbatim>\<open>read\<close> on \<open>self\<close> promotes into a State that holds the very list object of \<open>self\<close>.
\<close>

definition shares_list :: "'d heap \<Rightarrow> ref \<Rightarrow> bool" where
  "shares_list h self \<longleftrightarrow>
     (case owner_init_plan h (owner (state_store h self)) of
        None \<Rightarrow> False
      | Some parent_plan \<Rightarrow>
          state (plan_store h parent_plan) \<noteq> self \<and>
          ancestor_list h parent_plan = state_placeholders (state_store h self))"

text \<open>
  What a promotion into the plan \<open>pp\<close> leaves alone: every tensor, every worker, every
  State object, every placeholder that existed before, every list object but the
  ancestor's, which is only appended to, and every plan but \<open>pp\<close>, of which
  \<^verbatim>\<open>init_plan\<close> and \<^verbatim>\<open>state\<close> are kept.
\<close>

definition frame :: "ref \<Rightarrow> 'd heap \<Rightarrow> 'd heap \<Rightarrow> bool" where
  "frame pp h h' \<longleftrightarrow>
     tensor_store h' = tensor_store h \<and> tensor_next h' = tensor_next h \<and>
     state_store h' = state_store h \<and> state_next h' = state_next h \<and>
     list_next h' = list_next h \<and> worker_store h' = worker_store h \<and>
     ph_next h \<le> ph_next h' \<and> (\<forall>a<ph_next h. ph_store h' a = ph_store h a) \<and>
     (\<forall>l. l \<noteq> ancestor_list h pp \<longrightarrow> list_store h' l = list_store h l) \<and>
     (\<exists>ys. list_store h' (ancestor_list h pp) = list_store h (ancestor_list h pp) @ ys) \<and>
     (\<forall>q. q \<noteq> pp \<longrightarrow> plan_store h' q = plan_store h q) \<and>
     init_plan (plan_store h' pp) = init_plan (plan_store h pp) \<and>
     state (plan_store h' pp) = state (plan_store h pp)"

section \<open>State.clone\_state\_dict\<close>





section \<open>State.set\_\<close>

text \<open>
  \<^verbatim>\<open>state_dict\<close> is a Python dict: an association list in iteration order, with distinct
  keys. The inner loop (lines 88 to 90) visits every placeholder of \<^verbatim>\<open>self\<close> for one
  entry of the dict; \<^verbatim>\<open>instantiate\<close> appends to no list. The method \<^verbatim>\<open>set_\<close> is
  \<open>set_state\<close> here: a name cannot end with an underscore.
\<close>

fun set_inner :: "ref list \<Rightarrow> int \<Rightarrow> ref \<Rightarrow> 'd heap \<Rightarrow> 'd heap" where
  "set_inner [] placeholder_id new_tensor h = h"
| "set_inner (a # as) placeholder_id new_tensor h =
     set_inner as placeholder_id new_tensor
       (if ph_id (ph_store h a) = placeholder_id then instantiate h a (Some new_tensor) else h)"

fun set_state :: "'d heap \<Rightarrow> ref \<Rightarrow> (int \<times> ref) list \<Rightarrow> 'd heap" where
  "set_state h self [] = h"
| "set_state h self ((placeholder_id, new_tensor) # state_dict) =
     set_state (set_inner (placeholder_list h self) placeholder_id new_tensor h)
       self state_dict"

section \<open>State.simplify and State.detail\<close>

text \<open>
  Modelled from the spec: the generic codec (\<^verbatim>\<open>sy.serde.msgpack.serde._simplify\<close> and
  \<^verbatim>\<open>_detail\<close>) is not in the source file. It is taken as four functions between the
  contents of a sequence and its wire form: \<open>enc_phs\<close> and \<open>dec_phs\<close> for a placeholder
  sequence, \<open>enc_vals\<close> and \<open>dec_vals\<close> for a value sequence. On the wire a placeholder
  is its id and its tags (the bound values travel in the second half of the pair), a
  value is its id and contents, and \<^verbatim>\<open>None\<close> is \<open>None\<close>. Detailing builds one new object
  per element of the decoded sequence, in order.
\<close>

type_synonym ph_wire = "int \<times> string set"

definition simplify ::
  "(ph_wire list \<Rightarrow> 'w1) \<Rightarrow> ('d tensor option list \<Rightarrow> 'w2) \<Rightarrow> 'd heap \<Rightarrow> ref \<Rightarrow> 'w1 \<times> 'w2" where
  "simplify enc_phs enc_vals h st =
     (enc_phs (map (\<lambda>a. (ph_id (ph_store h a), tags (ph_store h a))) (placeholder_list h st)),
      enc_vals (map (map_option (tensor_store h)) (tensors h st)))"

text \<open>
  Modelled from the spec: what \<^verbatim>\<open>_detail\<close> builds from a decoded placeholder sequence
  (\<open>new_placeholders\<close>: new placeholder objects, not yet bound, and \<open>new_list\<close>: the new
  list object that holds them) and from a decoded value sequence (\<open>new_values\<close>: new
  tensor objects).
\<close>

definition mk_placeholder :: "ph_wire \<Rightarrow> placeholder" where
  "mk_placeholder w = \<lparr>ph_id = fst w, tags = snd w, child = None\<rparr>"

fun new_placeholders :: "ph_wire list \<Rightarrow> 'd heap \<Rightarrow> ref list \<times> 'd heap" where
  "new_placeholders [] h = ([], h)"
| "new_placeholders (w # ws) h =
     (let a = ph_next h;
          h1 = h\<lparr>ph_store := (ph_store h)(a := mk_placeholder w), ph_next := Suc a\<rparr>;
          (as, h2) = new_placeholders ws h1
      in (a # as, h2))"

definition new_list :: "ref list \<Rightarrow> 'd heap \<Rightarrow> ref \<times> 'd heap" where
  "new_list xs h =
     (list_next h, h\<lparr>list_store := (list_store h)(list_next h := xs), list_next := Suc (list_next h)\<rparr>)"

fun new_values :: "'d tensor option list \<Rightarrow> 'd heap \<Rightarrow> ref option list \<times> 'd heap" where
  "new_values [] h = ([], h)"
| "new_values (None # ts) h = (let (vs, h1) = new_values ts h in (None # vs, h1))"
| "new_values (Some t # ts) h =
     (let v = tensor_next h;
          h1 = h\<lparr>tensor_store := (tensor_store h)(v := t), tensor_next := Suc v\<rparr>;
          (vs, h2) = new_values ts h1
      in (Some v # vs, h2))"

text \<open>
  Modelled from the spec: \<^verbatim>\<open>worker.register_obj(obj, obj_id)\<close> stores the value in the
  worker's registry under the given identity.
\<close>

definition register_obj :: "'d heap \<Rightarrow> ref \<Rightarrow> ref \<Rightarrow> int \<Rightarrow> 'd heap" where
  "register_obj h w obj obj_id =
     h\<lparr>worker_store := (worker_store h)(w := (worker_store h w)
          \<lparr>objects := (objects (worker_store h w))(obj_id \<mapsto> obj)\<rparr>)\<rparr>"

text \<open>Lines 146 and 147; \<^verbatim>\<open>state_element.id\<close> raises on \<^verbatim>\<open>None\<close>.\<close>

fun register_all :: "ref \<Rightarrow> ref option list \<Rightarrow> 'd heap \<Rightarrow> error option \<times> 'd heap" where
  "register_all w [] h = (None, h)"
| "register_all w (None # es) h = (Some AttributeError, h)"
| "register_all w (Some v # es) h =
     register_all w es (register_obj h w v (tensor_id (tensor_store h v)))"

text \<open>
  Lines 149 and 150: \<^verbatim>\<open>zip\<close> stops at the end of the shorter sequence. The body appends
  to no list.
\<close>

fun instantiate_all :: "(ref \<times> ref option) list \<Rightarrow> 'd heap \<Rightarrow> 'd heap" where
  "instantiate_all [] h = h"
| "instantiate_all ((p, e) # zs) h = instantiate_all zs (instantiate h p e)"

text \<open>
  The constructor (lines 19 to 21) called with the list object \<open>l\<close>:
  \<^verbatim>\<open>state_placeholders or []\<close> keeps \<open>l\<close> unless it is empty, and makes a new empty list
  then.
\<close>

definition State_init :: "owner_ref \<Rightarrow> ref \<Rightarrow> 'd heap \<Rightarrow> ref \<times> 'd heap" where
  "State_init ow l h =
     (let (l', h1) = (if list_store h l = [] then new_list [] h else (l, h))
      in (state_next h1,
          h1\<lparr>state_store := (state_store h1)(state_next h1 := \<lparr>owner = ow, state_placeholders = l'\<rparr>),
             state_next := Suc (state_next h1)\<rparr>))"

text \<open>
  Lines 143 and 144: the two halves detailed, placeholders first. The result is the list
  object of the detailed placeholders, the detailed values and the store.
\<close>

definition detail_decode ::
  "('w1 \<Rightarrow> ph_wire list) \<Rightarrow> ('w2 \<Rightarrow> 'd tensor option list) \<Rightarrow> 'd heap \<Rightarrow> 'w1 \<times> 'w2
     \<Rightarrow> ref \<times> ref option list \<times> 'd heap" where
  "detail_decode dec_phs dec_vals h state_tuple =
     (let (phs, h0) = new_placeholders (dec_phs (fst state_tuple)) h;
          (l, h1) = new_list phs h0;
          (els, h2) = new_values (dec_vals (snd state_tuple)) h1
      in (l, els, h2))"

definition detail ::
  "('w1 \<Rightarrow> ph_wire list) \<Rightarrow> ('w2 \<Rightarrow> 'd tensor option list) \<Rightarrow> 'd heap \<Rightarrow> ref \<Rightarrow> 'w1 \<times> 'w2
     \<Rightarrow> (error + ref) \<times> 'd heap" where
  "detail dec_phs dec_vals h worker state_tuple =
     (let (l, state_elements, h2) = detail_decode dec_phs dec_vals h state_tuple
      in case register_all worker state_elements h2 of
           (Some e, h3) \<Rightarrow> (Inl e, h3)
         | (None, h3) \<Rightarrow>
             (let h4 = instantiate_all (zip (list_store h3 l) state_elements) h3;
                  (st, h5) = State_init (WorkerOwner worker) l h4
              in (Inr st, h5)))"

section \<open>Stores to run the methods on\<close>

text \<open>
  Two tensors; an inner plan 1 traced inside the outer plan 0, whose slot counter is 5;
  the inner State 0 with two bound placeholders in the list 0, the outer State 1 with one
  unbound placeholder in the list 1; a third plan 2, also traced inside plan 0, whose
  State 2 holds that same unbound placeholder in a list of its own, the list 2.
\<close>

definition example_heap :: "nat heap" where
  "example_heap =
     \<lparr>tensor_store = (\<lambda>_. \<lparr>tensor_id = 0, payload = 0\<rparr>)
        (0 := \<lparr>tensor_id = 100, payload = 7\<rparr>, 1 := \<lparr>tensor_id = 101, payload = 8\<rparr>),
      tensor_next = 2,
      ph_store = (\<lambda>_. \<lparr>ph_id = 0, tags = {}, child = None\<rparr>)
        (0 := \<lparr>ph_id = 10, tags = {}, child = Some 0\<rparr>,
         1 := \<lparr>ph_id = 11, tags = {''#1''}, child = Some 1\<rparr>,
         2 := \<lparr>ph_id = 12, tags = {''#outer''}, child = None\<rparr>),
      ph_next = 3,
      list_store = (\<lambda>_. [])(0 := [0, 1], 1 := [2], 2 := [2]),
      list_next = 3,
      state_store = (\<lambda>_. \<lparr>owner = WorkerOwner 0, state_placeholders = 0\<rparr>)
        (0 := \<lparr>owner = PlanOwner 1, state_placeholders = 0\<rparr>,
         1 := \<lparr>owner = PlanOwner 0, state_placeholders = 1\<rparr>,
         2 := \<lparr>owner = PlanOwner 2, state_placeholders = 2\<rparr>),
      state_next = 3,
      plan_store = (\<lambda>_. \<lparr>init_plan = None, state = 0, placeholders = Map.empty, var_count = 0\<rparr>)
        (0 := \<lparr>init_plan = None, state = 1, placeholders = Map.empty, var_count = 5\<rparr>,
         1 := \<lparr>init_plan = Some 0, state = 0, placeholders = Map.empty, var_count = 0\<rparr>,
         2 := \<lparr>init_plan = Some 0, state = 2, placeholders = Map.empty, var_count = 0\<rparr>),
      worker_store = (\<lambda>_. \<lparr>worker_init_plan = None, objects = Map.empty\<rparr>)\<rparr>"

text \<open>
  \<open>example_heap\<close> with the outer State 1 built on the list object of the inner State 0:
  the two State objects hold the list 0.
\<close>

definition shared_heap :: "nat heap" where
  "shared_heap =
     example_heap\<lparr>state_store := (state_store example_heap)
       (1 := \<lparr>owner = PlanOwner 0, state_placeholders = 0\<rparr>)\<rparr>"

text \<open>
  \<open>example_heap\<close> with State 2 built on the list object of the outer State 1: the two
  State objects hold the list 1, whose one placeholder is unbound.
\<close>

definition shared_unbound_heap :: "nat heap" where
  "shared_unbound_heap =
     example_heap\<lparr>state_store := (state_store example_heap)
       (2 := \<lparr>owner = PlanOwner 2, state_placeholders = 1\<rparr>)\<rparr>"

text \<open>\<open>example_heap\<close> with the inner placeholder 1 tagged \<^verbatim>\<open>#inner\<close>.\<close>

definition tagged_heap :: "nat heap" where
  "tagged_heap =
     example_heap\<lparr>ph_store := (ph_store example_heap)
       (1 := \<lparr>ph_id = 11, tags = {''#inner''}, child = Some 1\<rparr>)\<rparr>"

text \<open>\<open>example_heap\<close> with the inner placeholder 1 bound to tensor 0, as placeholder 0 is.\<close>

definition twin_heap :: "nat heap" where
  "twin_heap =
     example_heap\<lparr>ph_store := (ph_store example_heap)
       (1 := \<lparr>ph_id = 11, tags = {''#1''}, child = Some 0\<rparr>)\<rparr>"

text \<open>
  Pairs as they arrive at \<^verbatim>\<open>detail\<close> when the codec is the identity: two placeholders
  with one value; one placeholder with two values; one placeholder with a value and
  \<^verbatim>\<open>None\<close>; one placeholder with two values of the same id.
\<close>

definition example_tuple :: "ph_wire list \<times> nat tensor option list" where
  "example_tuple = ([(20, {}), (21, {''#x''})], [Some \<lparr>tensor_id = 200, payload = 9\<rparr>])"

definition example_tuple_values :: "ph_wire list \<times> nat tensor option list" where
  "example_tuple_values =
     ([(20, {})], [Some \<lparr>tensor_id = 200, payload = 9\<rparr>, Some \<lparr>tensor_id = 201, payload = 4\<rparr>])"

definition example_tuple_none :: "ph_wire list \<times> nat tensor option list" where
  "example_tuple_none = ([(20, {})], [Some \<lparr>tensor_id = 200, payload = 9\<rparr>, None])"

definition example_tuple_twins :: "ph_wire list \<times> nat tensor option list" where
  "example_tuple_twins =
     ([(20, {})], [Some \<lparr>tensor_id = 200, payload = 9\<rparr>, Some \<lparr>tensor_id = 200, payload = 4\<rparr>])"

section \<open>The promotion loop\<close>

lemma promote_one_bound:
  assumes "child (ph_store h a) = Some v"
  shows "promote_one pp a h = (None,
    h\<lparr>ph_store := (ph_store h)(ph_next h := (ph_store h a)
          \<lparr>tags := promoted_tags (var_count (plan_store h pp) + 1)\<rparr>),
      ph_next := Suc (ph_next h),
      list_store := (list_store h)(ancestor_list h pp := list_store h (ancestor_list h pp) @ [ph_next h]),
      plan_store := (plan_store h)(pp := (plan_store h pp)
          \<lparr>placeholders := (placeholders (plan_store h pp))(tensor_id (tensor_store h v) \<mapsto> ph_next h),
            var_count := var_count (plan_store h pp) + 1\<rparr>)\<rparr>)"
  using assms
  by (simp add: promote_one_def ph_copy_def set_tags_def tag_def ph_update_def list_append_def ancestor_list_def
      plan_update_def Let_def promoted_tags_def)

lemma promote_one_unbound:
  assumes "child (ph_store h a) = None"
  shows "promote_one pp a h = (Some AttributeError,
    h\<lparr>ph_store := (ph_store h)(ph_next h := (ph_store h a)
          \<lparr>tags := promoted_tags (var_count (plan_store h pp) + 1)\<rparr>),
      ph_next := Suc (ph_next h),
      list_store := (list_store h)(ancestor_list h pp := list_store h (ancestor_list h pp) @ [ph_next h])\<rparr>)"
  using assms
  by (simp add: promote_one_def ph_copy_def set_tags_def tag_def ph_update_def list_append_def ancestor_list_def
      plan_update_def Let_def promoted_tags_def)

lemma frame_refl: "frame pp h h"
  by (simp add: frame_def)

lemma frame_ancestor_list: "frame pp h h' \<Longrightarrow> ancestor_list h' pp = ancestor_list h pp"
  by (simp add: frame_def ancestor_list_def)

lemma frame_trans:
  assumes a: "frame pp h h1" and b: "frame pp h1 h2"
  shows "frame pp h h2"
proof -
  have al: "ancestor_list h1 pp = ancestor_list h pp" using a by (rule frame_ancestor_list)
  have 1: "\<forall>x<ph_next h. ph_store h2 x = ph_store h x"
    using a b unfolding frame_def by (metis less_le_trans)
  have 2: "\<exists>ys. list_store h2 (ancestor_list h pp) = list_store h (ancestor_list h pp) @ ys"
    using a b unfolding frame_def al by (metis append.assoc)
  have 3: "\<forall>l. l \<noteq> ancestor_list h pp \<longrightarrow> list_store h2 l = list_store h l"
    using a b unfolding frame_def al by simp
  have 4: "ph_next h \<le> ph_next h2" using a b unfolding frame_def by simp
  show ?thesis
    using a b 1 2 3 4 unfolding frame_def by simp
qed

lemma promote_one_frame: "frame pp h (snd (promote_one pp a h))"
proof (cases "child (ph_store h a)")
  case None
  then show ?thesis by (simp add: promote_one_unbound frame_def ancestor_list_def)
next
  case (Some v)
  then show ?thesis by (simp add: promote_one_bound frame_def ancestor_list_def)
qed

lemma promote_list_frame: "frame pp h (snd (promote_list pp xs h))"
proof (induction xs arbitrary: h)
  case Nil
  show ?case by (simp add: frame_refl)
next
  case (Cons a as)
  obtain r h1 where p1: "promote_one pp a h = (r, h1)" by (cases "promote_one pp a h")
  have f1: "frame pp h h1" using promote_one_frame [of pp h a] p1 by simp
  show ?case
  proof (cases r)
    case None
    then show ?thesis using p1 f1 Cons.IH [of h1] by (auto intro: frame_trans)
  next
    case (Some e)
    then show ?thesis using p1 f1 by simp
  qed
qed

lemma promote_list_Cons_bound:
  assumes "child (ph_store h a) = Some v"
  shows "promote_list pp (a # as) h = promote_list pp as (snd (promote_one pp a h))"
  using assms by (simp add: promote_one_bound)

lemma bound_step:
  assumes b: "\<forall>x\<in>set (a # as). child (ph_store h x) \<noteq> None"
    and al: "\<forall>x\<in>set (a # as). x < ph_next h"
  shows "\<forall>x\<in>set as. child (ph_store (snd (promote_one pp a h)) x) \<noteq> None"
    and "\<forall>x\<in>set as. x < ph_next (snd (promote_one pp a h))"
    and "\<forall>x\<in>set as. ph_store (snd (promote_one pp a h)) x = ph_store h x"
proof -
  obtain v where v: "child (ph_store h a) = Some v" using b by auto
  show "\<forall>x\<in>set as. child (ph_store (snd (promote_one pp a h)) x) \<noteq> None"
    using b al by (auto simp: promote_one_bound [OF v])
  show "\<forall>x\<in>set as. x < ph_next (snd (promote_one pp a h))"
    using al by (auto simp: promote_one_bound [OF v])
  show "\<forall>x\<in>set as. ph_store (snd (promote_one pp a h)) x = ph_store h x"
    using al by (auto simp: promote_one_bound [OF v])
qed

lemma promote_list_returns:
  assumes "\<forall>x\<in>set xs. child (ph_store h x) \<noteq> None" and "\<forall>x\<in>set xs. x < ph_next h"
  shows "fst (promote_list pp xs h) = None"
  using assms
proof (induction xs arbitrary: h)
  case Nil
  show ?case by simp
next
  case (Cons a as)
  obtain v where v: "child (ph_store h a) = Some v" using Cons.prems(1) by auto
  show ?case
    using Cons.IH [OF bound_step(1) [OF Cons.prems] bound_step(2) [OF Cons.prems], of pp]
    unfolding promote_list_Cons_bound [OF v] by simp
qed


lemma promote_list_var_count:
  assumes "\<forall>x\<in>set xs. child (ph_store h x) \<noteq> None" and "\<forall>x\<in>set xs. x < ph_next h"
  shows "var_count (plan_store (snd (promote_list pp xs h)) pp) = var_count (plan_store h pp) + int (length xs)"
  using assms
proof (induction xs arbitrary: h)
  case Nil
  show ?case by simp
next
  case (Cons a as)
  obtain v where v: "child (ph_store h a) = Some v" using Cons.prems(1) by auto
  show ?case
    using Cons.IH [OF bound_step(1) [OF Cons.prems] bound_step(2) [OF Cons.prems], of pp]
    by (simp add: promote_list_Cons_bound [OF v]) (simp add: promote_one_bound [OF v])
qed

lemma promote_list_appended:
  assumes "\<forall>x\<in>set xs. child (ph_store h x) \<noteq> None" and "\<forall>x\<in>set xs. x < ph_next h"
  shows "list_store (snd (promote_list pp xs h)) (ancestor_list h pp) =
         list_store h (ancestor_list h pp) @ [ph_next h ..< ph_next h + length xs]"
  using assms
proof (induction xs arbitrary: h)
  case Nil
  show ?case by simp
next
  case (Cons a as)
  obtain v where v: "child (ph_store h a) = Some v" using Cons.prems(1) by auto
  let ?h1 = "snd (promote_one pp a h)"
  have u: "[ph_next h ..< ph_next h + length (a # as)] = ph_next h # [Suc (ph_next h) ..< Suc (ph_next h) + length as]"
    by (rule trans [OF upt_conv_Cons]) simp_all
  have h1: "ancestor_list ?h1 pp = ancestor_list h pp" "ph_next ?h1 = Suc (ph_next h)"
    "list_store ?h1 (ancestor_list h pp) = list_store h (ancestor_list h pp) @ [ph_next h]"
    by (simp_all add: promote_one_bound [OF v] ancestor_list_def)
  show ?case
    using Cons.IH [OF bound_step(1) [OF Cons.prems] bound_step(2) [OF Cons.prems], of pp]
    unfolding promote_list_Cons_bound [OF v] u h1 by simp
qed

lemma promote_list_copies:
  assumes "\<forall>x\<in>set xs. child (ph_store h x) \<noteq> None" and "\<forall>x\<in>set xs. x < ph_next h"
    and "i < length xs"
  shows "ph_store (snd (promote_list pp xs h)) (ph_next h + i) =
         (ph_store h (xs ! i))\<lparr>tags := promoted_tags (var_count (plan_store h pp) + int i + 1)\<rparr>"
  using assms
proof (induction xs arbitrary: h i)
  case Nil
  then show ?case by simp
next
  case (Cons a as)
  obtain v where v: "child (ph_store h a) = Some v" using Cons.prems(1) by auto
  let ?h1 = "snd (promote_one pp a h)"
  note st = bound_step [OF Cons.prems(1,2), of pp]
  show ?case
  proof (cases i)
    case 0
    have "frame pp ?h1 (snd (promote_list pp as ?h1))" by (rule promote_list_frame)
    then have "ph_store (snd (promote_list pp as ?h1)) (ph_next h) = ph_store ?h1 (ph_next h)"
      by (simp add: frame_def promote_one_bound [OF v])
    then show ?thesis using 0
      by (simp add: promote_list_Cons_bound [OF v]) (simp add: promote_one_bound [OF v])
  next
    case (Suc j)
    then have j: "j < length as" using Cons.prems(3) by simp
    have same: "ph_store ?h1 (as ! j) = ph_store h (as ! j)" using st(3) j by simp
    have "ph_store (snd (promote_list pp as ?h1)) (ph_next ?h1 + j) =
          (ph_store ?h1 (as ! j))\<lparr>tags := promoted_tags (var_count (plan_store ?h1 pp) + int j + 1)\<rparr>"
      by (rule Cons.IH [OF st(1) st(2) j])
    then show ?thesis using Suc same
      by (simp add: promote_list_Cons_bound [OF v]) (simp add: promote_one_bound [OF v] add.commute add.left_commute)
  qed
qed




lemma str_nat_hd: "str_nat n \<noteq> [] \<and> hd (str_nat n) \<in> set ''0123456789''"
proof (induction n rule: str_nat.induct)
  case (1 n)
  show ?case
  proof (cases "n < 10")
    case True
    then have "n \<in> {0,1,2,3,4,5,6,7,8,9}" by auto
    then show ?thesis by (subst str_nat.simps, subst (2) str_nat.simps) (auto simp: digit_char_def)
  next
    case False
    with 1 show ?thesis by (subst str_nat.simps, subst (2) str_nat.simps) simp
  qed
qed

lemma str_int_hd: "str_int i \<noteq> [] \<and> hd (str_int i) \<in> set ''-0123456789''"
  using str_nat_hd [of "nat i"] by (auto simp: str_int_def)

lemma str_int_not_marker: "str_int i \<noteq> ''inner''" "str_int i \<noteq> ''state''"
  using str_int_hd [of i] by auto

lemma card_promoted_tags: "card (promoted_tags n) = 3"
  using str_int_not_marker [of n] by (simp add: promoted_tags_def)

subsection \<open>The loop over the live list\<close>

lemma promote_promote_list:
  assumes "l \<noteq> ancestor_list h pp"
  shows "promote pp l i h = Some (promote_list pp (drop i (list_store h l)) h)"
  using assms
proof (induction "length (list_store h l) - i" arbitrary: i h)
  case 0
  then show ?case by (subst promote.simps) simp
next
  case (Suc n)
  then have i: "i < length (list_store h l)" by simp
  let ?a = "list_store h l ! i"
  obtain r h1 where p1: "promote_one pp ?a h = (r, h1)" by (cases "promote_one pp ?a h")
  have f1: "frame pp h h1" using promote_one_frame [of pp h ?a] p1 by simp
  have l1: "list_store h1 l = list_store h l" using f1 Suc.prems by (simp add: frame_def)
  have a1: "l \<noteq> ancestor_list h1 pp" using frame_ancestor_list [OF f1] Suc.prems by simp
  have d: "drop i (list_store h l) = ?a # drop (Suc i) (list_store h l)"
    using i by (simp add: Cons_nth_drop_Suc)
  show ?case
  proof (cases r)
    case None
    have n: "n = length (list_store h1 l) - Suc i" using Suc.hyps(2) l1 by simp
    have "promote pp l (Suc i) h1 = Some (promote_list pp (drop (Suc i) (list_store h1 l)) h1)"
      by (rule Suc.hyps(1) [OF n a1])
    then show ?thesis using i p1 None l1 unfolding d by (subst promote.simps) simp
  next
    case (Some e)
    then show ?thesis using i p1 unfolding d by (subst promote.simps) simp
  qed
qed

lemma promote_one_keeps_bound:
  assumes "child (ph_store h a) \<noteq> None" and "child (ph_store h x) \<noteq> None"
  shows "child (ph_store (snd (promote_one pp a h)) x) \<noteq> None"
proof -
  obtain v where v: "child (ph_store h a) = Some v" using assms(1) by auto
  show ?thesis using assms(2) v by (simp add: promote_one_bound [OF v])
qed

lemma promote_one_copy_bound:
  assumes "child (ph_store h a) \<noteq> None"
  shows "child (ph_store (snd (promote_one pp a h)) (ph_next h)) \<noteq> None"
proof -
  obtain v where v: "child (ph_store h a) = Some v" using assms(1) by auto
  show ?thesis using v by (simp add: promote_one_bound [OF v])
qed

lemma promote_shared_never_returns:
  assumes "promote pp l i h = Some y"
  shows "\<not> (ancestor_list h pp = l \<and> i < length (list_store h l) \<and>
            (\<forall>x\<in>set (list_store h l). child (ph_store h x) \<noteq> None))"
proof (rule promote.raw_induct [where P = "\<lambda>pp l i h y.
          \<not> (ancestor_list h pp = l \<and> i < length (list_store h l) \<and>
            (\<forall>x\<in>set (list_store h l). child (ph_store h x) \<noteq> None))", OF _ assms])
  fix promote' :: "ref \<Rightarrow> ref \<Rightarrow> nat \<Rightarrow> 'd heap \<Rightarrow> (error option \<times> 'd heap) option"
  fix pp l i h y
  assume IH: "\<And>pp l i h y. promote' pp l i h = Some y \<Longrightarrow>
          \<not> (ancestor_list h pp = l \<and> i < length (list_store h l) \<and>
            (\<forall>x\<in>set (list_store h l). child (ph_store h x) \<noteq> None))"
    and eq: "(if i < length (list_store h l) then
        (case promote_one pp (list_store h l ! i) h of
           (None, h') \<Rightarrow> promote' pp l (Suc i) h'
         | (Some e, h') \<Rightarrow> Some (Some e, h'))
      else Some (None, h)) = Some y"
  show "\<not> (ancestor_list h pp = l \<and> i < length (list_store h l) \<and>
            (\<forall>x\<in>set (list_store h l). child (ph_store h x) \<noteq> None))"
  proof
    assume inv: "ancestor_list h pp = l \<and> i < length (list_store h l) \<and>
            (\<forall>x\<in>set (list_store h l). child (ph_store h x) \<noteq> None)"
    let ?a = "list_store h l ! i"
    have ab: "child (ph_store h ?a) \<noteq> None" using inv by simp
    then obtain v where v: "child (ph_store h ?a) = Some v" by auto
    obtain h1 where p1: "promote_one pp ?a h = (None, h1)" by (simp add: promote_one_bound [OF v])
    have h1: "h1 = snd (promote_one pp ?a h)" using p1 by simp
    have r: "promote' pp l (Suc i) h1 = Some y" using eq inv p1 by simp
    have l1: "list_store h1 l = list_store h l @ [ph_next h]"
      using inv unfolding h1 by (simp add: promote_one_bound [OF v])
    have a1: "ancestor_list h1 pp = l"
      using frame_ancestor_list [OF promote_one_frame [of pp h ?a]] inv unfolding h1 by simp
    have b1: "\<forall>x\<in>set (list_store h1 l). child (ph_store h1 x) \<noteq> None"
      unfolding l1 unfolding h1
      using promote_one_keeps_bound [OF ab, of _ pp] promote_one_copy_bound [OF ab, of pp] inv by auto
    have "ancestor_list h1 pp = l \<and> Suc i < length (list_store h1 l) \<and>
            (\<forall>x\<in>set (list_store h1 l). child (ph_store h1 x) \<noteq> None)"
      using a1 b1 inv unfolding l1 by simp
    then show False using IH [OF r] by simp
  qed
qed

lemma promote_shared_diverges:
  assumes "ancestor_list h pp = l" and "i < length (list_store h l)"
    and "\<forall>x\<in>set (list_store h l). child (ph_store h x) \<noteq> None"
  shows "promote pp l i h = None"
proof (cases "promote pp l i h")
  case None
  then show ?thesis .
next
  case (Some y)
  then show ?thesis using promote_shared_never_returns [OF Some] assms by simp
qed

section \<open>Promotion by read\<close>

lemma read_promotes:
  assumes "owner_init_plan h (owner (state_store h self)) = Some pp"
    and "state (plan_store h pp) \<noteq> self"
  shows "read h self =
    (case promote pp (state_placeholders (state_store h self)) 0 h of
       None \<Rightarrow> None
     | Some (Some e, h') \<Rightarrow> Some (Inl e, h')
     | Some (None, h') \<Rightarrow> Some (Inr (read_values h' self), h'))"
  using assms by (simp add: read_def)

lemma read_no_promotion:
  assumes "owner_init_plan h (owner (state_store h self)) = None \<or>
           owner_init_plan h (owner (state_store h self)) = Some (pp::ref) \<and> state (plan_store h pp) = self"
  shows "read h self = Some (Inr (read_values h self), h)"
  using assms by (auto simp: read_def)

lemma read_separate:
  assumes ip: "owner_init_plan h (owner (state_store h self)) = Some pp"
    and ne: "state (plan_store h pp) \<noteq> self"
    and sep: "state_placeholders (state_store h self) \<noteq> ancestor_list h pp"
  shows "read h self =
    Some (case promote_list pp (placeholder_list h self) h of
       (Some e, h') \<Rightarrow> (Inl e, h') | (None, h') \<Rightarrow> (Inr (read_values h' self), h'))"
  unfolding read_promotes [OF ip ne] promote_promote_list [OF sep, of 0] placeholder_list_def
  by (simp split: prod.splits option.splits)

lemma read_empty:
  assumes ip: "owner_init_plan h (owner (state_store h self)) = Some pp"
    and ne: "state (plan_store h pp) \<noteq> self"
    and e: "placeholder_list h self = []"
  shows "read h self = Some (Inr [], h)"
proof -
  have "promote pp (state_placeholders (state_store h self)) 0 h = Some (None, h)"
    using e by (subst promote.simps) (simp add: placeholder_list_def)
  then show ?thesis using e by (simp add: read_promotes [OF ip ne] read_values_def)
qed

lemma frame_placeholder_list:
  assumes "frame pp h h'" and "state_placeholders (state_store h s) \<noteq> ancestor_list h pp"
  shows "placeholder_list h' s = placeholder_list h s"
  using assms by (simp add: frame_def placeholder_list_def)

lemma frame_read_values:
  assumes f: "frame pp h h'"
    and sep: "state_placeholders (state_store h self) \<noteq> ancestor_list h pp"
    and al: "\<forall>a\<in>set (placeholder_list h self). a < ph_next h"
  shows "read_values h' self = read_values h self"
proof -
  have "\<forall>a\<in>set (placeholder_list h self). ph_store h' a = ph_store h a"
    using f al by (simp add: frame_def)
  then show ?thesis
    unfolding read_values_def frame_placeholder_list [OF f sep]
    by (intro arg_cong2 [where f = map] map_cong filter_cong) auto
qed

lemma read_promotes_ok:
  assumes ip: "owner_init_plan h (owner (state_store h self)) = Some pp"
    and ne: "state (plan_store h pp) \<noteq> self"
    and sep: "state_placeholders (state_store h self) \<noteq> ancestor_list h pp"
    and b: "\<forall>a\<in>set (placeholder_list h self). child (ph_store h a) \<noteq> None"
    and al: "\<forall>a\<in>set (placeholder_list h self). a < ph_next h"
  shows "read h self =
    Some (Inr (read_values h self), snd (promote_list pp (placeholder_list h self) h))"
proof -
  let ?xs = "placeholder_list h self"
  obtain r h' where p: "promote_list pp ?xs h = (r, h')" by (cases "promote_list pp ?xs h")
  have r: "r = None" using promote_list_returns [OF b al, of pp] p by simp
  have f: "frame pp h h'" using promote_list_frame [of pp h ?xs] p by simp
  show ?thesis
    using p r frame_read_values [OF f sep al] by (simp add: read_separate [OF ip ne sep])
qed

lemma read_shared_diverges:
  assumes ip: "owner_init_plan h (owner (state_store h self)) = Some pp"
    and ne: "state (plan_store h pp) \<noteq> self"
    and sh: "ancestor_list h pp = state_placeholders (state_store h self)"
    and b: "\<forall>a\<in>set (placeholder_list h self). child (ph_store h a) \<noteq> None"
    and k: "placeholder_list h self \<noteq> []"
  shows "read h self = None"
proof -
  have "promote pp (state_placeholders (state_store h self)) 0 h = None"
    using b k by (intro promote_shared_diverges [OF sh]) (simp_all add: placeholder_list_def)
  then show ?thesis by (simp add: read_promotes [OF ip ne])
qed

lemma example_heap_simps:
  "ph_next example_heap = 3"
  "state_store example_heap 0 = \<lparr>owner = PlanOwner 1, state_placeholders = 0\<rparr>"
  "state_store example_heap 1 = \<lparr>owner = PlanOwner 0, state_placeholders = 1\<rparr>"
  "plan_store example_heap 0 = \<lparr>init_plan = None, state = 1, placeholders = Map.empty, var_count = 5\<rparr>"
  "plan_store example_heap 1 = \<lparr>init_plan = Some 0, state = 0, placeholders = Map.empty, var_count = 0\<rparr>"
  "state_store example_heap 2 = \<lparr>owner = PlanOwner 2, state_placeholders = 2\<rparr>"
  "plan_store example_heap 2 = \<lparr>init_plan = Some 0, state = 2, placeholders = Map.empty, var_count = 0\<rparr>"
  "ph_store example_heap 0 = \<lparr>ph_id = 10, tags = {}, child = Some 0\<rparr>"
  "ph_store example_heap 1 = \<lparr>ph_id = 11, tags = {''#1''}, child = Some 1\<rparr>"
  "ph_store example_heap 2 = \<lparr>ph_id = 12, tags = {''#outer''}, child = None\<rparr>"
  "tensor_store example_heap 0 = \<lparr>tensor_id = 100, payload = 7\<rparr>"
  "tensor_store example_heap 1 = \<lparr>tensor_id = 101, payload = 8\<rparr>"
  "list_store example_heap 0 = [0, 1]"
  "list_store example_heap 1 = [2]"
  "list_store example_heap 2 = [2]"
  "state_store example_heap (Suc 0) = \<lparr>owner = PlanOwner 0, state_placeholders = 1\<rparr>"
  "plan_store example_heap (Suc 0) = \<lparr>init_plan = Some 0, state = 0, placeholders = Map.empty, var_count = 0\<rparr>"
  "ph_store example_heap (Suc 0) = \<lparr>ph_id = 11, tags = {''#1''}, child = Some 1\<rparr>"
  "tensor_store example_heap (Suc 0) = \<lparr>tensor_id = 101, payload = 8\<rparr>"
  "list_store example_heap (Suc 0) = [2]"
  by (simp_all add: example_heap_def)

lemma example_lists:
  "placeholder_list example_heap 0 = [0, 1]"
  "placeholder_list example_heap 1 = [2]"
  "placeholder_list example_heap 2 = [2]"
  "ancestor_list example_heap 0 = 1"
  "placeholder_list example_heap (Suc 0) = [2]"
  by (simp_all add: placeholder_list_def ancestor_list_def example_heap_simps)

lemma shared_heap_simps:
  "ph_next shared_heap = 3"
  "state_store shared_heap 0 = \<lparr>owner = PlanOwner 1, state_placeholders = 0\<rparr>"
  "state_store shared_heap 1 = \<lparr>owner = PlanOwner 0, state_placeholders = 0\<rparr>"
  "state_store shared_heap (Suc 0) = \<lparr>owner = PlanOwner 0, state_placeholders = 0\<rparr>"
  "plan_store shared_heap = plan_store example_heap"
  "ph_store shared_heap = ph_store example_heap"
  "tensor_store shared_heap = tensor_store example_heap"
  "list_store shared_heap = list_store example_heap"
  by (simp_all add: shared_heap_def example_heap_simps)

lemma shared_unbound_heap_simps:
  "ph_next shared_unbound_heap = 3"
  "state_store shared_unbound_heap 1 = \<lparr>owner = PlanOwner 0, state_placeholders = 1\<rparr>"
  "state_store shared_unbound_heap (Suc 0) = \<lparr>owner = PlanOwner 0, state_placeholders = 1\<rparr>"
  "state_store shared_unbound_heap 2 = \<lparr>owner = PlanOwner 2, state_placeholders = 1\<rparr>"
  "plan_store shared_unbound_heap = plan_store example_heap"
  "ph_store shared_unbound_heap = ph_store example_heap"
  "tensor_store shared_unbound_heap = tensor_store example_heap"
  "list_store shared_unbound_heap = list_store example_heap"
  by (simp_all add: shared_unbound_heap_def example_heap_simps)

text \<open>
  C1, amended. Take a State \<open>self\<close> whose owner has \<^verbatim>\<open>init_plan\<close> set to the plan \<open>pp\<close>,
  the State of \<open>pp\<close> being another State object; let \<open>self\<close> hold the placeholders \<open>xs\<close>,
  each of them bound to a value, and, unless \<open>xs\<close> is empty, let the ancestor's State
  hold another list object than \<open>self\<close> does; let the ancestor's State hold \<open>ys\<close> and
  let the slot counter of \<open>pp\<close> be \<open>C\<close> (every placeholder of \<open>xs\<close> and \<open>ys\<close> is an
  existing object). Then \<^verbatim>\<open>read\<close> returns a value list; the counter is \<open>C\<close> plus the
  length of \<open>xs\<close>; the ancestor's State holds \<open>ys\<close> followed by as many new
  placeholders; the \<open>i\<close>-th of them (counted from 1) is a copy of the \<open>i\<close>-th placeholder
  of \<open>self\<close> carrying exactly the three tags \<^verbatim>\<open>#inner\<close>, \<^verbatim>\<open>#state\<close> and \<^verbatim>\<open>#\<close> followed by
  \<open>C + i\<close>; and the tags of the placeholders of \<open>ys\<close> are as before.
\<close>

theorem read_promotion:
  assumes ip: "owner_init_plan h (owner (state_store h self)) = Some pp"
    and ne: "state (plan_store h pp) \<noteq> self"
    and xs: "placeholder_list h self = xs"
    and b: "\<forall>a\<in>set xs. child (ph_store h a) \<noteq> None"
    and sep: "xs = [] \<or> state_placeholders (state_store h self) \<noteq> ancestor_list h pp"
    and al: "\<forall>a\<in>set xs. a < ph_next h"
    and old: "placeholder_list h (state (plan_store h pp)) = ys"
    and al_old: "\<forall>a\<in>set ys. a < ph_next h"
    and c: "var_count (plan_store h pp) = C"
  shows "\<exists>vs h'. read h self = Some (Inr vs, h') \<and>
         var_count (plan_store h' pp) = C + int (length xs) \<and>
         placeholder_list h' (state (plan_store h pp)) =
           ys @ [ph_next h ..< ph_next h + length xs] \<and>
         (\<forall>i<length xs. ph_store h' (ph_next h + i) =
            (ph_store h (xs ! i))\<lparr>tags := {''#inner'', ''#state'', ''#'' @ str_int (C + int (i + 1))}\<rparr>
            \<and> card (tags (ph_store h' (ph_next h + i))) = 3) \<and>
         (\<forall>a\<in>set ys. tags (ph_store h' a) = tags (ph_store h a))"
proof (cases "xs = []")
  case True
  have "read h self = Some (Inr [], h)" using read_empty [OF ip ne] xs True by simp
  then show ?thesis using True c old by simp
next
  case False
  then have sep': "state_placeholders (state_store h self) \<noteq> ancestor_list h pp" using sep by simp
  have b': "\<forall>a\<in>set (placeholder_list h self). child (ph_store h a) \<noteq> None"
    and al': "\<forall>a\<in>set (placeholder_list h self). a < ph_next h"
    using b al xs by simp_all
  define h' where "h' = snd (promote_list pp xs h)"
  have r: "read h self = Some (Inr (read_values h self), h')"
    using read_promotes_ok [OF ip ne sep' b' al'] xs by (simp add: h'_def)
  have f: "frame pp h h'" unfolding h'_def by (rule promote_list_frame)
  have old': "list_store h (ancestor_list h pp) = ys"
    using old by (simp add: placeholder_list_def ancestor_list_def)
  have 1: "var_count (plan_store h' pp) = C + int (length xs)"
    using promote_list_var_count [OF b al, of pp] c unfolding h'_def by simp
  have "list_store h' (ancestor_list h pp) = ys @ [ph_next h ..< ph_next h + length xs]"
    using promote_list_appended [OF b al, of pp] old' unfolding h'_def by simp
  moreover have "state_store h' = state_store h" using f by (simp add: frame_def)
  ultimately have 2: "placeholder_list h' (state (plan_store h pp)) =
           ys @ [ph_next h ..< ph_next h + length xs]"
    by (simp add: placeholder_list_def ancestor_list_def)
  have 3: "\<forall>i<length xs. ph_store h' (ph_next h + i) =
            (ph_store h (xs ! i))\<lparr>tags := {''#inner'', ''#state'', ''#'' @ str_int (C + int (i + 1))}\<rparr>
            \<and> card (tags (ph_store h' (ph_next h + i))) = 3"
  proof (intro allI impI)
    fix i assume i: "i < length xs"
    have e: "ph_store h' (ph_next h + i) = (ph_store h (xs ! i))\<lparr>tags := promoted_tags (C + int (i + 1))\<rparr>"
      using promote_list_copies [OF b al i, of pp] c unfolding h'_def by (simp add: ac_simps)
    then show "ph_store h' (ph_next h + i) =
            (ph_store h (xs ! i))\<lparr>tags := {''#inner'', ''#state'', ''#'' @ str_int (C + int (i + 1))}\<rparr>
            \<and> card (tags (ph_store h' (ph_next h + i))) = 3"
      using card_promoted_tags [of "C + int (i + 1)"] by (simp add: promoted_tags_def)
  qed
  have 4: "\<forall>a\<in>set ys. tags (ph_store h' a) = tags (ph_store h a)"
    using f al_old by (simp add: frame_def)
  show ?thesis using r 1 2 3 4 by blast
qed

text \<open>The theorem on the inner State 0 of \<open>example_heap\<close>: two placeholders, counter 5.\<close>

theorem read_promotion_witness:
  "owner_init_plan example_heap (owner (state_store example_heap 0)) = Some 0 \<and>
   state (plan_store example_heap 0) = 1 \<and>
   placeholder_list example_heap 0 = [0, 1] \<and>
   state_placeholders (state_store example_heap 0) = 0 \<and>
   ancestor_list example_heap 0 = 1 \<and>
   var_count (plan_store example_heap 0) = 5 \<and>
   (\<exists>vs h'. read example_heap 0 = Some (Inr vs, h') \<and>
      var_count (plan_store h' 0) = 7 \<and>
      placeholder_list h' 1 = [2, 3, 4] \<and>
      ph_store h' 3 = \<lparr>ph_id = 10, tags = {''#inner'', ''#state'', ''#'' @ str_int 6}, child = Some 0\<rparr> \<and>
      ph_store h' 4 = \<lparr>ph_id = 11, tags = {''#inner'', ''#state'', ''#'' @ str_int 7}, child = Some 1\<rparr> \<and>
      tags (ph_store h' 2) = {''#outer''})"
proof -
  have ip: "owner_init_plan example_heap (owner (state_store example_heap 0)) = Some 0"
    by (simp add: owner_init_plan_def example_heap_simps)
  have ne: "state (plan_store example_heap 0) \<noteq> 0" by (simp add: example_heap_simps)
  have xs: "placeholder_list example_heap 0 = [0, 1]" by (rule example_lists)
  have b: "\<forall>a\<in>set [0, 1]. child (ph_store example_heap a) \<noteq> None" by (simp add: example_heap_simps)
  have sep: "[0, 1::nat] = [] \<or> state_placeholders (state_store example_heap 0) \<noteq> ancestor_list example_heap 0"
    by (simp add: example_lists example_heap_simps)
  have al: "\<forall>a\<in>set [0, 1::nat]. a < ph_next example_heap" by (simp add: example_heap_simps)
  have old: "placeholder_list example_heap (state (plan_store example_heap 0)) = [2]"
    by (simp add: example_heap_simps example_lists)
  have al_old: "\<forall>a\<in>set [2::nat]. a < ph_next example_heap" by (simp add: example_heap_simps)
  have c: "var_count (plan_store example_heap 0) = 5" by (simp add: example_heap_simps)
  obtain vs h' where r: "read example_heap 0 = Some (Inr vs, h')"
    and vc: "var_count (plan_store h' 0) = 5 + int (length [0, 1::nat])"
    and ap: "placeholder_list h' (state (plan_store example_heap 0)) =
           [2] @ [ph_next example_heap ..< ph_next example_heap + length [0, 1::nat]]"
    and cp: "\<forall>i<length [0, 1::nat]. ph_store h' (ph_next example_heap + i) =
            (ph_store example_heap ([0, 1] ! i))\<lparr>tags := {''#inner'', ''#state'', ''#'' @ str_int (5 + int (i + 1))}\<rparr>
            \<and> card (tags (ph_store h' (ph_next example_heap + i))) = 3"
    and tg: "\<forall>a\<in>set [2]. tags (ph_store h' a) = tags (ph_store example_heap a)"
    using read_promotion [OF ip ne xs b sep al old al_old c] by blast
  have c0: "ph_store h' 3 =
     \<lparr>ph_id = 10, tags = {''#inner'', ''#state'', ''#'' @ str_int 6}, child = Some 0\<rparr>"
    using cp [rule_format, of 0] by (simp add: example_heap_simps)
  have c1: "ph_store h' 4 =
     \<lparr>ph_id = 11, tags = {''#inner'', ''#state'', ''#'' @ str_int 7}, child = Some 1\<rparr>"
    using cp [rule_format, of 1] by (simp add: example_heap_simps)
  have vc': "var_count (plan_store h' 0) = 7" using vc by simp
  have ap': "placeholder_list h' 1 = [2, 3, 4]"
    using ap by (simp add: example_heap_simps upt_rec)
  have tg': "tags (ph_store h' 2) = {''#outer''}"
    using tg by (simp add: example_heap_simps)
  have e: "\<exists>vs h'. read example_heap 0 = Some (Inr vs, h') \<and>
      var_count (plan_store h' 0) = 7 \<and>
      placeholder_list h' 1 = [2, 3, 4] \<and>
      ph_store h' 3 = \<lparr>ph_id = 10, tags = {''#inner'', ''#state'', ''#'' @ str_int 6}, child = Some 0\<rparr> \<and>
      ph_store h' 4 = \<lparr>ph_id = 11, tags = {''#inner'', ''#state'', ''#'' @ str_int 7}, child = Some 1\<rparr> \<and>
      tags (ph_store h' 2) = {''#outer''}"
    using r vc' ap' c0 c1 tg' by blast
  show ?thesis
    using e ip xs c by (simp add: example_heap_simps example_lists)
qed

text \<open>
  C1 as stated has no condition on the inner placeholders being bound, and none on the
  list objects. State 2 of \<open>example_heap\<close> holds one unbound placeholder and its owner is
  traced inside plan 0, whose counter is 5: \<^verbatim>\<open>read\<close> raises on line 70 and the counter
  is still 5, not 6. In \<open>shared_heap\<close> the inner State 0, with two bound placeholders,
  and the State 1 of the ancestor plan 0 are two State objects that hold the same list
  object: every pass of the loop of line 65 appends to the list it walks, and \<^verbatim>\<open>read\<close>
  never returns.
\<close>

theorem read_promotion_counterexample:
  "owner_init_plan example_heap (owner (state_store example_heap 2)) = Some 0 \<and>
   state (plan_store example_heap 0) \<noteq> 2 \<and>
   placeholder_list example_heap 2 = [2] \<and>
   var_count (plan_store example_heap 0) = 5 \<and>
   (\<exists>h'. read example_heap 2 = Some (Inl AttributeError, h') \<and>
      var_count (plan_store h' 0) = 5) \<and>
   owner_init_plan shared_heap (owner (state_store shared_heap 0)) = Some 0 \<and>
   state (plan_store shared_heap 0) = 1 \<and>
   state_placeholders (state_store shared_heap 0) = state_placeholders (state_store shared_heap 1) \<and>
   placeholder_list shared_heap 0 = [0, 1] \<and>
   child (ph_store shared_heap 0) = Some 0 \<and> child (ph_store shared_heap 1) = Some 1 \<and>
   read shared_heap 0 = None"
proof -
  have ip: "owner_init_plan example_heap (owner (state_store example_heap 2)) = Some 0"
    by (simp add: owner_init_plan_def example_heap_simps)
  have ne: "state (plan_store example_heap 0) \<noteq> 2" by (simp add: example_heap_simps)
  have sep: "state_placeholders (state_store example_heap 2) \<noteq> ancestor_list example_heap 0"
    by (simp add: example_heap_simps example_lists)
  have u: "child (ph_store example_heap 2) = None" by (simp add: example_heap_simps)
  have 1: "\<exists>h'. read example_heap 2 = Some (Inl AttributeError, h') \<and> var_count (plan_store h' 0) = 5"
    by (simp add: read_separate [OF ip ne sep] example_lists promote_one_unbound [OF u] example_heap_simps)
  have ip2: "owner_init_plan shared_heap (owner (state_store shared_heap 0)) = Some 0"
    by (simp add: owner_init_plan_def shared_heap_simps example_heap_simps)
  have ne2: "state (plan_store shared_heap 0) \<noteq> 0" by (simp add: shared_heap_simps example_heap_simps)
  have l2: "placeholder_list shared_heap 0 = [0, 1]"
    by (simp add: placeholder_list_def shared_heap_simps example_heap_simps)
  have sh: "ancestor_list shared_heap 0 = state_placeholders (state_store shared_heap 0)"
    by (simp add: ancestor_list_def shared_heap_simps example_heap_simps)
  have b2: "\<forall>a\<in>set (placeholder_list shared_heap 0). child (ph_store shared_heap a) \<noteq> None"
    unfolding l2 by (simp add: shared_heap_simps example_heap_simps)
  have k2: "placeholder_list shared_heap 0 \<noteq> []" unfolding l2 by simp
  have 2: "read shared_heap 0 = None" by (rule read_shared_diverges [OF ip2 ne2 sh b2 k2])
  show ?thesis
    using ip 1 2 ip2 l2 by (simp add: example_heap_simps example_lists shared_heap_simps)
qed

section \<open>What read leaves alone\<close>

lemma frame_owner_init_plan:
  assumes "frame pp h h'"
  shows "owner_init_plan h' ow = owner_init_plan h ow"
proof (cases ow)
  case (PlanOwner p)
  then show ?thesis using assms by (cases "p = pp") (simp_all add: owner_init_plan_def frame_def)
next
  case (WorkerOwner w)
  then show ?thesis using assms by (simp add: owner_init_plan_def frame_def)
qed

lemma shares_list_promotes:
  assumes "owner_init_plan h (owner (state_store h self)) = Some pp"
    and "state (plan_store h pp) \<noteq> self"
  shows "shares_list h self \<longleftrightarrow> ancestor_list h pp = state_placeholders (state_store h self)"
  using assms by (simp add: shares_list_def)

text \<open>
  C7, amended. Take a State \<open>self\<close> (holding existing placeholders) that holds no
  placeholder or does not hold the list object of the State \<^verbatim>\<open>read\<close> promotes into. Then
  \<^verbatim>\<open>read\<close> returns or raises, and whichever it does: the State object \<open>self\<close> is as
  before (its owner and its list object), its placeholder sequence is as before, every
  placeholder it holds is as before (id, tags and bound value), and so is every tensor.
  Either the store is untouched, or the owner's \<^verbatim>\<open>init_plan\<close> is a plan \<open>pp\<close> whose
  State is another object and the call changed nothing outside the \<open>frame\<close> of \<open>pp\<close>:
  the list of the ancestor's State was appended to, and of \<open>pp\<close> only \<^verbatim>\<open>placeholders\<close>
  and \<^verbatim>\<open>var_count\<close> may differ.
\<close>

theorem read_leaves_self:
  assumes al: "\<forall>a\<in>set (placeholder_list h self). a < ph_next h"
    and sep: "\<not> shares_list h self \<or> placeholder_list h self = []"
  shows "\<exists>res h'. read h self = Some (res, h') \<and>
         state_store h' self = state_store h self \<and>
         placeholder_list h' self = placeholder_list h self \<and>
         (\<forall>a\<in>set (placeholder_list h self). ph_store h' a = ph_store h a) \<and>
         tensor_store h' = tensor_store h \<and>
         (h' = h \<or>
          (\<exists>pp. owner_init_plan h (owner (state_store h self)) = Some pp \<and>
                state (plan_store h pp) \<noteq> self \<and> frame pp h h'))"
proof (cases "owner_init_plan h (owner (state_store h self))")
  case None
  then have "read h self = Some (Inr (read_values h self), h)"
    using read_no_promotion [of h self] by simp
  then show ?thesis by simp
next
  case (Some pp)
  show ?thesis
  proof (cases "state (plan_store h pp) = self")
    case True
    then have "read h self = Some (Inr (read_values h self), h)"
      using Some read_no_promotion [of h self pp] by simp
    then show ?thesis by simp
  next
    case False
    show ?thesis
    proof (cases "placeholder_list h self = []")
      case True
      have "read h self = Some (Inr [], h)" by (rule read_empty [OF Some False True])
      then show ?thesis by simp
    next
      case ne: False
      then have sep': "state_placeholders (state_store h self) \<noteq> ancestor_list h pp"
        using sep shares_list_promotes [OF Some False] by auto
      obtain r h' where p: "promote_list pp (placeholder_list h self) h = (r, h')"
        by (cases "promote_list pp (placeholder_list h self) h")
      have f: "frame pp h h'" using promote_list_frame [of pp h "placeholder_list h self"] p by simp
      have "\<exists>res. read h self = Some (res, h')"
        using p by (cases r) (simp_all add: read_separate [OF Some False sep'])
      then obtain res where 0: "read h self = Some (res, h')" by blast
      have 1: "state_store h' self = state_store h self" using f by (simp add: frame_def)
      have 2: "placeholder_list h' self = placeholder_list h self"
        by (rule frame_placeholder_list [OF f sep'])
      have 3: "\<forall>a\<in>set (placeholder_list h self). ph_store h' a = ph_store h a"
        using f al by (simp add: frame_def)
      have 4: "tensor_store h' = tensor_store h" using f by (simp add: frame_def)
      show ?thesis using 0 1 2 3 4 f Some False by blast
    qed
  qed
qed

text \<open>The theorem on the inner State 0 of \<open>example_heap\<close>.\<close>

theorem read_leaves_self_witness:
  "\<not> shares_list example_heap 0 \<and>
   (\<exists>res h'. read example_heap 0 = Some (res, h') \<and>
      state_store h' 0 = \<lparr>owner = PlanOwner 1, state_placeholders = 0\<rparr> \<and>
      placeholder_list h' 0 = [0, 1] \<and>
      ph_store h' 0 = \<lparr>ph_id = 10, tags = {}, child = Some 0\<rparr> \<and>
      ph_store h' 1 = \<lparr>ph_id = 11, tags = {''#1''}, child = Some 1\<rparr> \<and>
      tensor_store h' = tensor_store example_heap \<and>
      frame 0 example_heap h')"
proof -
  have al: "\<forall>a\<in>set (placeholder_list example_heap 0). a < ph_next example_heap"
    by (simp add: example_heap_simps example_lists)
  have ip: "owner_init_plan example_heap (owner (state_store example_heap 0)) = Some 0"
    by (simp add: owner_init_plan_def example_heap_simps)
  have ne: "state (plan_store example_heap 0) \<noteq> 0" by (simp add: example_heap_simps)
  have ns: "\<not> shares_list example_heap 0"
    unfolding shares_list_promotes [OF ip ne] by (simp add: example_heap_simps example_lists)
  then have sep: "\<not> shares_list example_heap 0 \<or> placeholder_list example_heap 0 = []" by simp
  obtain res h' where r: "read example_heap 0 = Some (res, h')"
    and 1: "state_store h' 0 = state_store example_heap 0"
    and 2: "placeholder_list h' 0 = placeholder_list example_heap 0"
    and 3: "\<forall>a\<in>set (placeholder_list example_heap 0). ph_store h' a = ph_store example_heap a"
    and 4: "tensor_store h' = tensor_store example_heap"
    and 5: "h' = example_heap \<or>
          (\<exists>pp. owner_init_plan example_heap (owner (state_store example_heap 0)) = Some pp \<and>
                state (plan_store example_heap pp) \<noteq> 0 \<and> frame pp example_heap h')"
    using read_leaves_self [OF al sep] by blast
  have f: "frame 0 example_heap h'" using 5 ip by (auto simp: frame_refl)
  have p01: "ph_store h' 0 = \<lparr>ph_id = 10, tags = {}, child = Some 0\<rparr>"
    "ph_store h' 1 = \<lparr>ph_id = 11, tags = {''#1''}, child = Some 1\<rparr>"
    using 3 by (simp_all add: example_lists example_heap_simps)
  have "\<exists>res h'. read example_heap 0 = Some (res, h') \<and>
      state_store h' 0 = \<lparr>owner = PlanOwner 1, state_placeholders = 0\<rparr> \<and>
      placeholder_list h' 0 = [0, 1] \<and>
      ph_store h' 0 = \<lparr>ph_id = 10, tags = {}, child = Some 0\<rparr> \<and>
      ph_store h' 1 = \<lparr>ph_id = 11, tags = {''#1''}, child = Some 1\<rparr> \<and>
      tensor_store h' = tensor_store example_heap \<and>
      frame 0 example_heap h'"
    using r 1 2 p01 4 f by (simp add: example_lists example_heap_simps)
  then show ?thesis using ns by simp
qed

text \<open>
  C7 as stated fails on State 2 of \<open>shared_unbound_heap\<close>. Its owner is traced inside
  plan 0, whose State 1 is another State object that holds the same list object, with
  one unbound placeholder. Line 69 appends the copy to that list, which is the list of
  State 2 itself, before line 70 raises: the placeholder sequence of State 2 was
  \<open>[2]\<close> before the call and is \<open>[2, 3]\<close> after it.
\<close>

theorem read_leaves_self_counterexample:
  "owner_init_plan shared_unbound_heap (owner (state_store shared_unbound_heap 2)) = Some 0 \<and>
   state (plan_store shared_unbound_heap 0) = 1 \<and>
   state_placeholders (state_store shared_unbound_heap 2) =
     state_placeholders (state_store shared_unbound_heap 1) \<and>
   placeholder_list shared_unbound_heap 2 = [2] \<and>
   (\<exists>h'. read shared_unbound_heap 2 = Some (Inl AttributeError, h') \<and>
      placeholder_list h' 2 = [2, 3])"
proof -
  have ip: "owner_init_plan shared_unbound_heap (owner (state_store shared_unbound_heap 2)) = Some 0"
    by (simp add: owner_init_plan_def shared_unbound_heap_simps example_heap_simps)
  have ne: "state (plan_store shared_unbound_heap 0) \<noteq> 2"
    by (simp add: shared_unbound_heap_simps example_heap_simps)
  have u: "child (ph_store shared_unbound_heap 2) = None"
    by (simp add: shared_unbound_heap_simps example_heap_simps)
  have l: "placeholder_list shared_unbound_heap 2 = [2]"
    by (simp add: placeholder_list_def shared_unbound_heap_simps example_heap_simps)
  have a: "ancestor_list shared_unbound_heap 0 = 1"
    by (simp add: ancestor_list_def shared_unbound_heap_simps example_heap_simps)
  have p: "promote 0 1 0 shared_unbound_heap =
      Some (promote_one 0 2 shared_unbound_heap)"
    by (subst promote.simps)
      (simp add: promote_one_unbound [OF u] shared_unbound_heap_simps example_heap_simps)
  have sp: "state_placeholders (state_store shared_unbound_heap 2) = 1"
    by (simp add: shared_unbound_heap_simps)
  have r: "read shared_unbound_heap 2 =
      Some (Inl AttributeError, snd (promote_one 0 2 shared_unbound_heap))"
    unfolding read_promotes [OF ip ne] sp p by (simp add: promote_one_unbound [OF u])
  have "placeholder_list (snd (promote_one 0 2 shared_unbound_heap)) 2 = [2, 3]"
    by (simp add: promote_one_unbound [OF u] a placeholder_list_def shared_unbound_heap_simps
        example_heap_simps)
  then have "\<exists>h'. read shared_unbound_heap 2 = Some (Inl AttributeError, h') \<and>
      placeholder_list h' 2 = [2, 3]"
    using r by blast
  then show ?thesis
    using ip l by (simp add: shared_unbound_heap_simps example_heap_simps)
qed

section \<open>A second read\<close>

lemma promote_list_returns_bound:
  assumes "fst (promote_list pp xs h) = None" and "\<forall>x\<in>set xs. x < ph_next h"
  shows "\<forall>x\<in>set xs. child (ph_store h x) \<noteq> None"
  using assms
proof (induction xs arbitrary: h)
  case Nil
  show ?case by simp
next
  case (Cons a as)
  show ?case
  proof (cases "child (ph_store h a)")
    case None
    then show ?thesis using Cons.prems(1) by (simp add: promote_one_unbound)
  next
    case (Some v)
    let ?h1 = "snd (promote_one pp a h)"
    have f: "frame pp h ?h1" by (rule promote_one_frame)
    have r: "fst (promote_list pp as ?h1) = None"
      using Cons.prems(1) unfolding promote_list_Cons_bound [OF Some] .
    have al1: "\<forall>x\<in>set as. x < ph_next ?h1" using f Cons.prems(2) by (auto simp: frame_def)
    have "\<forall>x\<in>set as. child (ph_store ?h1 x) \<noteq> None" by (rule Cons.IH [OF r al1])
    moreover have "\<forall>x\<in>set as. ph_store ?h1 x = ph_store h x"
      using f Cons.prems(2) by (simp add: frame_def)
    ultimately show ?thesis using Some by simp
  qed
qed

text \<open>
  When the loop walks the list it appends to, it does not come to the end of the list:
  if it returns at all, it raises.
\<close>

lemma promote_shared_no_return:
  assumes "promote pp l i h = Some y"
  shows "ancestor_list h pp = l \<and> i < length (list_store h l) \<longrightarrow> fst y \<noteq> None"
proof (rule promote.raw_induct [where P = "\<lambda>pp l i h y.
          ancestor_list h pp = l \<and> i < length (list_store h l) \<longrightarrow> fst y \<noteq> None", OF _ assms])
  fix promote' :: "ref \<Rightarrow> ref \<Rightarrow> nat \<Rightarrow> 'd heap \<Rightarrow> (error option \<times> 'd heap) option"
  fix pp l i h y
  assume IH: "\<And>pp l i h y. promote' pp l i h = Some y \<Longrightarrow>
          ancestor_list h pp = l \<and> i < length (list_store h l) \<longrightarrow> fst y \<noteq> None"
    and eq: "(if i < length (list_store h l) then
        (case promote_one pp (list_store h l ! i) h of
           (None, h') \<Rightarrow> promote' pp l (Suc i) h'
         | (Some e, h') \<Rightarrow> Some (Some e, h'))
      else Some (None, h)) = Some y"
  show "ancestor_list h pp = l \<and> i < length (list_store h l) \<longrightarrow> fst y \<noteq> None"
  proof
    assume inv: "ancestor_list h pp = l \<and> i < length (list_store h l)"
    let ?a = "list_store h l ! i"
    obtain r h1 where p1: "promote_one pp ?a h = (r, h1)" by (cases "promote_one pp ?a h")
    show "fst y \<noteq> None"
    proof (cases r)
      case (Some e)
      then show ?thesis using eq inv p1 by auto
    next
      case None
      have h1: "h1 = snd (promote_one pp ?a h)" using p1 by simp
      have r: "promote' pp l (Suc i) h1 = Some y" using eq inv p1 None by simp
      have b: "child (ph_store h ?a) \<noteq> None"
      proof
        assume "child (ph_store h ?a) = None"
        then show False using p1 None by (simp add: promote_one_unbound)
      qed
      then obtain v where v: "child (ph_store h ?a) = Some v" by auto
      have l1: "list_store h1 l = list_store h l @ [ph_next h]"
        using inv unfolding h1 by (simp add: promote_one_bound [OF v])
      have a1: "ancestor_list h1 pp = l"
        using frame_ancestor_list [OF promote_one_frame [of pp h ?a]] inv unfolding h1 by simp
      have "ancestor_list h1 pp = l \<and> Suc i < length (list_store h1 l)"
        using a1 inv unfolding l1 by simp
      then show ?thesis using IH [OF r] by simp
    qed
  qed
qed

text \<open>What is known once a call of read that promotes has returned a list.\<close>

lemma read_returned:
  assumes ip: "owner_init_plan h (owner (state_store h self)) = Some pp"
    and ne: "state (plan_store h pp) \<noteq> self"
    and al: "\<forall>a\<in>set (placeholder_list h self). a < ph_next h"
    and r: "read h self = Some (Inr vs, h1)"
  shows "placeholder_list h self = [] \<and> h1 = h \<and> vs = [] \<or>
         state_placeholders (state_store h self) \<noteq> ancestor_list h pp \<and>
         (\<forall>a\<in>set (placeholder_list h self). child (ph_store h a) \<noteq> None) \<and>
         h1 = snd (promote_list pp (placeholder_list h self) h) \<and> vs = read_values h self"
proof (cases "placeholder_list h self = []")
  case True
  then show ?thesis using r read_empty [OF ip ne True] by simp
next
  case False
  let ?l = "state_placeholders (state_store h self)"
  have sep: "?l \<noteq> ancestor_list h pp"
  proof
    assume sh: "?l = ancestor_list h pp"
    obtain y where y: "promote pp ?l 0 h = Some y" and fy: "fst y = None"
      using r unfolding read_promotes [OF ip ne]
      by (auto split: option.splits prod.splits)
    have "ancestor_list h pp = ?l \<and> 0 < length (list_store h ?l)"
      using sh False by (simp add: placeholder_list_def)
    then show False using promote_shared_no_return [OF y] fy by simp
  qed
  obtain e h' where p: "promote_list pp (placeholder_list h self) h = (e, h')"
    by (cases "promote_list pp (placeholder_list h self) h")
  have e: "e = None" and h': "h' = h1" and vs: "vs = read_values h1 self"
    using r p unfolding read_separate [OF ip ne sep] by (auto split: option.splits)
  have b: "\<forall>a\<in>set (placeholder_list h self). child (ph_store h a) \<noteq> None"
    using promote_list_returns_bound [OF _ al, of pp] p e by simp
  have "read h self = Some (Inr (read_values h self), snd (promote_list pp (placeholder_list h self) h))"
    by (rule read_promotes_ok [OF ip ne sep b al])
  then show ?thesis using r sep b by simp
qed

lemma read_again:
  assumes ip: "owner_init_plan h (owner (state_store h self)) = Some pp"
    and ne: "state (plan_store h pp) \<noteq> self"
    and sep: "state_placeholders (state_store h self) \<noteq> ancestor_list h pp"
    and b: "\<forall>a\<in>set (placeholder_list h self). child (ph_store h a) \<noteq> None"
    and al: "\<forall>a\<in>set (placeholder_list h self). a < ph_next h"
    and h1: "h1 = snd (promote_list pp (placeholder_list h self) h)"
  shows "owner_init_plan h1 (owner (state_store h1 self)) = Some pp"
    and "state (plan_store h1 pp) = state (plan_store h pp)"
    and "state_placeholders (state_store h1 self) \<noteq> ancestor_list h1 pp"
    and "placeholder_list h1 self = placeholder_list h self"
    and "\<forall>a\<in>set (placeholder_list h self). ph_store h1 a = ph_store h a"
    and "\<forall>a\<in>set (placeholder_list h self). a < ph_next h1"
    and "\<forall>a\<in>set (placeholder_list h self). value_id h1 a = value_id h a"
    and "read h1 self = Some (Inr (read_values h self), snd (promote_list pp (placeholder_list h self) h1))"
proof -
  let ?xs = "placeholder_list h self"
  have f: "frame pp h h1" unfolding h1 by (rule promote_list_frame)
  have s: "state_store h1 = state_store h" using f by (simp add: frame_def)
  show ip1: "owner_init_plan h1 (owner (state_store h1 self)) = Some pp"
    unfolding s frame_owner_init_plan [OF f] by (rule ip)
  show st: "state (plan_store h1 pp) = state (plan_store h pp)" using f by (simp add: frame_def)
  show sep1: "state_placeholders (state_store h1 self) \<noteq> ancestor_list h1 pp"
    unfolding frame_ancestor_list [OF f] s by (rule sep)
  show pl: "placeholder_list h1 self = ?xs" by (rule frame_placeholder_list [OF f sep])
  show p: "\<forall>a\<in>set ?xs. ph_store h1 a = ph_store h a" using f al by (simp add: frame_def)
  show al1: "\<forall>a\<in>set ?xs. a < ph_next h1" using f al by (auto simp: frame_def)
  have "tensor_store h1 = tensor_store h" using f by (simp add: frame_def)
  then show "\<forall>a\<in>set ?xs. value_id h1 a = value_id h a" using p by (simp add: value_id_def)
  have ne1: "state (plan_store h1 pp) \<noteq> self" using st ne by simp
  have b1: "\<forall>a\<in>set (placeholder_list h1 self). child (ph_store h1 a) \<noteq> None"
    unfolding pl using b p by simp
  have al1': "\<forall>a\<in>set (placeholder_list h1 self). a < ph_next h1" unfolding pl by (rule al1)
  show "read h1 self = Some (Inr (read_values h self), snd (promote_list pp ?xs h1))"
    using read_promotes_ok [OF ip1 ne1 sep1 b1 al1'] frame_read_values [OF f sep al]
    unfolding pl by simp
qed

lemma promoted_copies_tagged:
  assumes b: "\<forall>a\<in>set xs. child (ph_store h a) \<noteq> None"
    and al: "\<forall>a\<in>set xs. a < ph_next h"
  shows "\<forall>c\<in>set [ph_next h ..< ph_next h + length xs].
           ''#inner'' \<in> tags (ph_store (snd (promote_list pp xs h)) c)"
proof
  fix c assume "c \<in> set [ph_next h ..< ph_next h + length xs]"
  then obtain i where i: "i < length xs" and c: "c = ph_next h + i"
    by (auto simp: nat_le_iff_add)
  show "''#inner'' \<in> tags (ph_store (snd (promote_list pp xs h)) c)"
    unfolding c promote_list_copies [OF b al i] by (simp add: promoted_tags_def)
qed

text \<open>
  C3, amended. Take an inner State \<open>self\<close> (holding existing placeholders) whose owner
  is traced inside a plan \<open>pp\<close> with another State, and on which \<^verbatim>\<open>read\<close> has performed
  one promotion round: the call returned the list \<open>vs\<close> and left the store \<open>h1\<close>. The
  round tagged \<^verbatim>\<open>#inner\<close> the copies \<open>cs\<close> it appended to the ancestor's State, one for
  each placeholder of \<open>self\<close>; the placeholders of \<open>self\<close> remain in its sequence and
  their tags are as before the first call. A second call on the same State returns,
  and it returns the same list as the first: the bound values of the placeholders of
  \<open>self\<close> not tagged \<^verbatim>\<open>#inner\<close>. So the second call excludes a placeholder promoted by
  the first only if that placeholder carried \<^verbatim>\<open>#inner\<close> before the first call.
\<close>

theorem read_twice:
  assumes ip: "owner_init_plan h (owner (state_store h self)) = Some pp"
    and ne: "state (plan_store h pp) \<noteq> self"
    and al: "\<forall>a\<in>set (placeholder_list h self). a < ph_next h"
    and r1: "read h self = Some (Inr vs, h1)"
  shows "vs = map (\<lambda>a. child (ph_store h a))
                (filter (\<lambda>a. ''#inner'' \<notin> tags (ph_store h a)) (placeholder_list h self)) \<and>
         placeholder_list h1 self = placeholder_list h self \<and>
         (\<forall>a\<in>set (placeholder_list h self). tags (ph_store h1 a) = tags (ph_store h a)) \<and>
         (\<exists>cs. placeholder_list h1 (state (plan_store h pp)) =
                  placeholder_list h (state (plan_store h pp)) @ cs \<and>
               length cs = length (placeholder_list h self) \<and>
               (\<forall>c\<in>set cs. ''#inner'' \<in> tags (ph_store h1 c))) \<and>
         (\<exists>h2. read h1 self = Some (Inr vs, h2) \<and>
               placeholder_list h2 self = placeholder_list h self)"
proof -
  let ?xs = "placeholder_list h self"
  from read_returned [OF ip ne al r1]
  consider (empty) "?xs = []" "h1 = h" "vs = []"
    | (promoted) "state_placeholders (state_store h self) \<noteq> ancestor_list h pp"
        "\<forall>a\<in>set ?xs. child (ph_store h a) \<noteq> None"
        "h1 = snd (promote_list pp ?xs h)" "vs = read_values h self"
    by blast
  then show ?thesis
  proof cases
    case empty
    have "read h1 self = Some (Inr vs, h)" using r1 empty by simp
    then show ?thesis using empty by (simp add: read_values_def)
  next
    case promoted
    note a = read_again [OF ip ne promoted(1,2) al promoted(3)]
    have f: "frame pp h h1" unfolding promoted(3) by (rule promote_list_frame)
    have s: "state_store h1 = state_store h" using f by (simp add: frame_def)
    have 1: "vs = map (\<lambda>a. child (ph_store h a))
                (filter (\<lambda>a. ''#inner'' \<notin> tags (ph_store h a)) ?xs)"
      using promoted(4) by (simp add: read_values_def)
    have 2: "\<forall>a\<in>set ?xs. tags (ph_store h1 a) = tags (ph_store h a)" using a(5) by simp
    have "list_store h1 (ancestor_list h pp) =
          list_store h (ancestor_list h pp) @ [ph_next h ..< ph_next h + length ?xs]"
      unfolding promoted(3) by (rule promote_list_appended [OF promoted(2) al])
    then have 3: "placeholder_list h1 (state (plan_store h pp)) =
          placeholder_list h (state (plan_store h pp)) @ [ph_next h ..< ph_next h + length ?xs]"
      by (simp add: placeholder_list_def ancestor_list_def s)
    have 4: "\<forall>c\<in>set [ph_next h ..< ph_next h + length ?xs]. ''#inner'' \<in> tags (ph_store h1 c)"
      unfolding promoted(3) by (rule promoted_copies_tagged [OF promoted(2) al])
    have 5: "\<exists>cs. placeholder_list h1 (state (plan_store h pp)) =
                  placeholder_list h (state (plan_store h pp)) @ cs \<and>
               length cs = length ?xs \<and>
               (\<forall>c\<in>set cs. ''#inner'' \<in> tags (ph_store h1 c))"
      using 3 4 by (intro exI [of _ "[ph_next h ..< ph_next h + length ?xs]"]) simp
    define h2 where "h2 = snd (promote_list pp ?xs h1)"
    have r2: "read h1 self = Some (Inr vs, h2)" using a(8) promoted(4) by (simp add: h2_def)
    have f2: "frame pp h1 h2" unfolding h2_def by (rule promote_list_frame)
    have "placeholder_list h2 self = placeholder_list h1 self"
      by (rule frame_placeholder_list [OF f2 a(3)])
    then have 6: "placeholder_list h2 self = ?xs" using a(4) by simp
    show ?thesis using 1 a(4) 2 5 r2 6 by blast
  qed
qed

lemma tagged_heap_simps:
  "ph_next tagged_heap = 3"
  "state_store tagged_heap = state_store example_heap"
  "plan_store tagged_heap = plan_store example_heap"
  "tensor_store tagged_heap = tensor_store example_heap"
  "list_store tagged_heap = list_store example_heap"
  "ph_store tagged_heap 0 = \<lparr>ph_id = 10, tags = {}, child = Some 0\<rparr>"
  "ph_store tagged_heap 1 = \<lparr>ph_id = 11, tags = {''#inner''}, child = Some 1\<rparr>"
  "ph_store tagged_heap (Suc 0) = \<lparr>ph_id = 11, tags = {''#inner''}, child = Some 1\<rparr>"
  by (simp_all add: tagged_heap_def example_heap_simps)

lemma tagged_hyps:
  "owner_init_plan tagged_heap (owner (state_store tagged_heap 0)) = Some 0"
  "state (plan_store tagged_heap 0) \<noteq> 0"
  "state_placeholders (state_store tagged_heap 0) \<noteq> ancestor_list tagged_heap 0"
  "\<forall>a\<in>set (placeholder_list tagged_heap 0). child (ph_store tagged_heap a) \<noteq> None"
  "\<forall>a\<in>set (placeholder_list tagged_heap 0). a < ph_next tagged_heap"
  "placeholder_list tagged_heap 0 = [0, 1]"
  "read_values tagged_heap 0 = [Some 0]"
  by (simp_all add: owner_init_plan_def placeholder_list_def ancestor_list_def read_values_def
      tagged_heap_simps example_heap_simps)

text \<open>
  The theorem on the inner State 0 of \<open>tagged_heap\<close>, whose second placeholder carries
  \<^verbatim>\<open>#inner\<close>: both calls return the value of the first placeholder only.
\<close>

theorem read_twice_witness:
  "placeholder_list tagged_heap 0 = [0, 1] \<and>
   tags (ph_store tagged_heap 0) = {} \<and>
   tags (ph_store tagged_heap 1) = {''#inner''} \<and>
   (\<exists>h1 h2. read tagged_heap 0 = Some (Inr [Some 0], h1) \<and>
      placeholder_list h1 0 = [0, 1] \<and>
      tags (ph_store h1 0) = {} \<and>
      tags (ph_store h1 1) = {''#inner''} \<and>
      read h1 0 = Some (Inr [Some 0], h2) \<and>
      placeholder_list h2 0 = [0, 1])"
proof -
  note h = tagged_hyps
  define h1 where "h1 = snd (promote_list 0 (placeholder_list tagged_heap 0) tagged_heap)"
  have r1: "read tagged_heap 0 = Some (Inr [Some 0], h1)"
    using read_promotes_ok [OF h(1,2,3,4,5)] h(7) by (simp add: h1_def)
  note t = read_twice [OF h(1,2,5) r1]
  have 1: "placeholder_list h1 0 = [0, 1]" using t h(6) by simp
  have "\<forall>a\<in>set (placeholder_list tagged_heap 0). tags (ph_store h1 a) = tags (ph_store tagged_heap a)"
    using t by blast
  then have 2: "tags (ph_store h1 0) = {}" "tags (ph_store h1 1) = {''#inner''}"
    unfolding h(6) by (simp_all add: tagged_heap_simps)
  obtain h2 where 3: "read h1 0 = Some (Inr [Some 0], h2)"
    and 4: "placeholder_list h2 0 = placeholder_list tagged_heap 0"
    using t by blast
  have "\<exists>h1 h2. read tagged_heap 0 = Some (Inr [Some 0], h1) \<and>
      placeholder_list h1 0 = [0, 1] \<and>
      tags (ph_store h1 0) = {} \<and>
      tags (ph_store h1 1) = {''#inner''} \<and>
      read h1 0 = Some (Inr [Some 0], h2) \<and>
      placeholder_list h2 0 = [0, 1]"
    using r1 1 2 3 4 h(6) by (intro exI [of _ h1] exI [of _ h2]) simp
  then show ?thesis using h(6) by (simp add: tagged_heap_simps)
qed

lemma example_read_values: "read_values example_heap 0 = [Some 0, Some 1]"
  by (simp add: read_values_def example_heap_simps example_lists)

lemma example_hyps:
  "owner_init_plan example_heap (owner (state_store example_heap 0)) = Some 0"
  "state (plan_store example_heap 0) \<noteq> 0"
  "state_placeholders (state_store example_heap 0) \<noteq> ancestor_list example_heap 0"
  "\<forall>a\<in>set (placeholder_list example_heap 0). child (ph_store example_heap a) \<noteq> None"
  "\<forall>a\<in>set (placeholder_list example_heap 0). a < ph_next example_heap"
  by (simp_all add: owner_init_plan_def example_heap_simps example_lists)

text \<open>
  C3 as stated fails on the inner State 0 of \<open>example_heap\<close>. The first call promotes
  placeholder 0: its copy, placeholder 3, is in the ancestor's State, tagged \<^verbatim>\<open>#inner\<close>
  and bound to the same tensor 0. Placeholder 0 is still in the inner State, it is not
  tagged \<^verbatim>\<open>#inner\<close>, and the second call returns its value, tensor 0, again.
\<close>

theorem read_twice_counterexample:
  "\<exists>h1 h2. read example_heap 0 = Some (Inr [Some 0, Some 1], h1) \<and>
     placeholder_list h1 1 = [2, 3, 4] \<and>
     child (ph_store h1 3) = Some 0 \<and>
     ''#inner'' \<in> tags (ph_store h1 3) \<and>
     placeholder_list h1 0 = [0, 1] \<and>
     child (ph_store h1 0) = Some 0 \<and>
     ''#inner'' \<notin> tags (ph_store h1 0) \<and>
     read h1 0 = Some (Inr [Some 0, Some 1], h2)"
proof -
  note h = example_hyps
  define h1 where "h1 = snd (promote_list 0 (placeholder_list example_heap 0) example_heap)"
  define h2 where "h2 = snd (promote_list 0 (placeholder_list example_heap 0) h1)"
  have xs: "placeholder_list example_heap 0 = [0, 1]" by (rule example_lists)
  have b: "\<forall>a\<in>set [0, 1]. child (ph_store example_heap a) \<noteq> None"
    and al: "\<forall>a\<in>set [0, 1::nat]. a < ph_next example_heap"
    using h(4,5) xs by simp_all
  have s: "h1 = snd (promote_list 0 [0, 1] example_heap)" unfolding h1_def xs ..
  note a = read_again [OF h h1_def]
  have 1: "read example_heap 0 = Some (Inr [Some 0, Some 1], h1)"
    using read_promotes_ok [OF h] by (simp add: example_read_values h1_def)
  have f: "frame 0 example_heap h1" unfolding h1_def by (rule promote_list_frame)
  have st: "state_store h1 = state_store example_heap" using f by (simp add: frame_def)
  have "list_store h1 (ancestor_list example_heap 0) = [2, 3, 4]"
    unfolding s using promote_list_appended [OF b al, of 0]
    by (simp add: example_heap_simps example_lists upt_rec)
  then have 2: "placeholder_list h1 1 = [2, 3, 4]"
    by (simp add: placeholder_list_def st example_heap_simps example_lists)
  have c: "ph_store h1 3 = (ph_store example_heap 0)\<lparr>tags := promoted_tags 6\<rparr>"
    unfolding s using promote_list_copies [OF b al, of 0 0] by (simp add: example_heap_simps)
  have 3: "child (ph_store h1 3) = Some 0"
    and 4: "''#inner'' \<in> tags (ph_store h1 3)"
    unfolding c by (simp_all add: example_heap_simps promoted_tags_def)
  have 5: "placeholder_list h1 0 = [0, 1]" using a(4) xs by simp
  have 6: "child (ph_store h1 0) = Some 0" "''#inner'' \<notin> tags (ph_store h1 0)"
    using a(5) xs by (simp_all add: example_heap_simps)
  have 7: "read h1 0 = Some (Inr [Some 0, Some 1], h2)"
    using a(8) by (simp add: example_read_values h2_def)
  show ?thesis using 1 2 3 4 5 6 7 by blast
qed

section \<open>Repeated promotion\<close>









section \<open>Rebinding with set\_\<close>

lemma set_inner_eq:
  "set_inner xs pid v h =
     h\<lparr>ph_store := (\<lambda>a. if a \<in> set xs \<and> ph_id (ph_store h a) = pid
                         then (ph_store h a)\<lparr>child := Some v\<rparr> else ph_store h a)\<rparr>"
proof (induction xs arbitrary: h)
  case Nil
  show ?case by simp
next
  case (Cons x xs)
  let ?h1 = "if ph_id (ph_store h x) = pid then instantiate h x (Some v) else h"
  have 1: "?h1 = h\<lparr>ph_store := ph_store ?h1\<rparr>"
    by (simp add: instantiate_def ph_update_def)
  have 2: "(\<lambda>a. if a \<in> set xs \<and> ph_id (ph_store ?h1 a) = pid
                then (ph_store ?h1 a)\<lparr>child := Some v\<rparr> else ph_store ?h1 a) =
           (\<lambda>a. if a \<in> set (x # xs) \<and> ph_id (ph_store h a) = pid
                then (ph_store h a)\<lparr>child := Some v\<rparr> else ph_store h a)"
    by (rule ext) (auto simp: instantiate_def ph_update_def)
  have "set_inner (x # xs) pid v h = set_inner xs pid v ?h1" by simp
  also have "\<dots> = ?h1\<lparr>ph_store := (\<lambda>a. if a \<in> set xs \<and> ph_id (ph_store ?h1 a) = pid
                then (ph_store ?h1 a)\<lparr>child := Some v\<rparr> else ph_store ?h1 a)\<rparr>"
    by (rule Cons.IH)
  also have "\<dots> = h\<lparr>ph_store := (\<lambda>a. if a \<in> set xs \<and> ph_id (ph_store ?h1 a) = pid
                then (ph_store ?h1 a)\<lparr>child := Some v\<rparr> else ph_store ?h1 a)\<rparr>"
    by (subst 1) simp
  finally show ?case unfolding 2 .
qed

lemma set_inner_fields:
  "state_store (set_inner xs pid v h) = state_store h"
  "placeholder_list (set_inner xs pid v h) s = placeholder_list h s"
  "ph_id (ph_store (set_inner xs pid v h) a) = ph_id (ph_store h a)"
  by (simp_all add: set_inner_eq placeholder_list_def)

lemma set_state_other_fields:
  "set_state h self sd = h\<lparr>ph_store := ph_store (set_state h self sd)\<rparr>"
proof (induction sd arbitrary: h)
  case Nil
  show ?case by simp
next
  case (Cons e sd)
  obtain k v where e: "e = (k, v)" by (cases e)
  show ?case
    unfolding e set_state.simps
    by (subst Cons.IH) (simp add: set_inner_eq)
qed

lemma set_state_store:
  assumes "distinct (map fst sd)"
  shows "ph_store (set_state h self sd) a =
     (if a \<in> set (placeholder_list h self)
      then (case map_of sd (ph_id (ph_store h a)) of
              Some v \<Rightarrow> (ph_store h a)\<lparr>child := Some v\<rparr> | None \<Rightarrow> ph_store h a)
      else ph_store h a)"
  using assms
proof (induction sd arbitrary: h)
  case Nil
  show ?case by simp
next
  case (Cons e sd)
  obtain k v where e: "e = (k, v)" by (cases e)
  let ?xs = "placeholder_list h self"
  let ?h1 = "set_inner ?xs k v h"
  have d: "distinct (map fst sd)" and nk: "map_of sd k = None"
    using Cons.prems e by (simp_all add: map_of_eq_None_iff)
  have "ph_store (set_state ?h1 self sd) a =
     (if a \<in> set ?xs
      then (case map_of sd (ph_id (ph_store h a)) of
              Some v \<Rightarrow> (ph_store ?h1 a)\<lparr>child := Some v\<rparr> | None \<Rightarrow> ph_store ?h1 a)
      else ph_store ?h1 a)"
    using Cons.IH [OF d, of ?h1] by (simp add: set_inner_fields)
  then show ?case
    unfolding e set_state.simps using nk
    by (simp add: set_inner_eq split: option.splits)
qed


lemma map_of_filter_key:
  "P k \<Longrightarrow> map_of (filter (\<lambda>(k, v). P k) sd) k = map_of sd k"
  by (induction sd) auto

lemma set_state_drop_unmatched:
  assumes d: "distinct (map fst sd)"
  shows "set_state h self sd =
         set_state h self
           (filter (\<lambda>(k, v). k \<in> (\<lambda>a. ph_id (ph_store h a)) ` set (placeholder_list h self)) sd)"
proof -
  let ?xs = "placeholder_list h self"
  let ?P = "\<lambda>k. k \<in> (\<lambda>a. ph_id (ph_store h a)) ` set ?xs"
  let ?sd' = "filter (\<lambda>(k, v). ?P k) sd"
  have d': "distinct (map fst ?sd')" using d by (rule distinct_map_filter)
  have "ph_store (set_state h self sd) = ph_store (set_state h self ?sd')"
  proof (rule ext)
    fix a
    show "ph_store (set_state h self sd) a = ph_store (set_state h self ?sd') a"
    proof (cases "a \<in> set ?xs")
      case True
      then have "?P (ph_id (ph_store h a))" by simp
      then have "map_of ?sd' (ph_id (ph_store h a)) = map_of sd (ph_id (ph_store h a))"
        by (rule map_of_filter_key)
      then show ?thesis using True by (simp add: set_state_store [OF d] set_state_store [OF d'])
    next
      case False
      then show ?thesis by (simp add: set_state_store [OF d] set_state_store [OF d'])
    qed
  qed
  then show ?thesis
    using set_state_other_fields [of h self sd] set_state_other_fields [of h self ?sd'] by simp
qed

text \<open>
  C5. For every State \<open>self\<close>, holding the placeholders \<open>xs\<close>, and every \<^verbatim>\<open>state_dict\<close>
  (a dict: its keys are distinct), after \<^verbatim>\<open>set_\<close>: a placeholder of \<open>xs\<close> whose id is a key
  is the placeholder it was with the mapped value as its bound value, whatever was bound
  before; a placeholder of \<open>xs\<close> whose id is not a key is as before; so is every
  placeholder outside \<open>xs\<close>, and nothing but placeholders changes in the store. The
  method has no failing path, and the entries whose key is the id of no placeholder of
  \<open>xs\<close> can be dropped from the dict without changing the store it leaves.
\<close>

theorem set_state_rebinds:
  assumes d: "distinct (map fst state_dict)"
    and xs: "placeholder_list h self = xs"
  shows "(\<forall>a\<in>set xs. \<forall>v. map_of state_dict (ph_id (ph_store h a)) = Some v \<longrightarrow>
            ph_store (set_state h self state_dict) a = (ph_store h a)\<lparr>child := Some v\<rparr>) \<and>
         (\<forall>a\<in>set xs. ph_id (ph_store h a) \<notin> fst ` set state_dict \<longrightarrow>
            ph_store (set_state h self state_dict) a = ph_store h a) \<and>
         (\<forall>a. a \<notin> set xs \<longrightarrow> ph_store (set_state h self state_dict) a = ph_store h a) \<and>
         set_state h self state_dict = h\<lparr>ph_store := ph_store (set_state h self state_dict)\<rparr> \<and>
         set_state h self state_dict =
           set_state h self (filter (\<lambda>(k, v). k \<in> (\<lambda>a. ph_id (ph_store h a)) ` set xs) state_dict)"
proof (intro conjI)
  show "\<forall>a\<in>set xs. \<forall>v. map_of state_dict (ph_id (ph_store h a)) = Some v \<longrightarrow>
            ph_store (set_state h self state_dict) a = (ph_store h a)\<lparr>child := Some v\<rparr>"
    using xs by (simp add: set_state_store [OF d])
  show "\<forall>a\<in>set xs. ph_id (ph_store h a) \<notin> fst ` set state_dict \<longrightarrow>
            ph_store (set_state h self state_dict) a = ph_store h a"
    using xs by (simp add: set_state_store [OF d] map_of_eq_None_iff [THEN iffD2])
  show "\<forall>a. a \<notin> set xs \<longrightarrow> ph_store (set_state h self state_dict) a = ph_store h a"
    using xs by (simp add: set_state_store [OF d])
  show "set_state h self state_dict = h\<lparr>ph_store := ph_store (set_state h self state_dict)\<rparr>"
    by (rule set_state_other_fields)
  show "set_state h self state_dict =
           set_state h self (filter (\<lambda>(k, v). k \<in> (\<lambda>a. ph_id (ph_store h a)) ` set xs) state_dict)"
    using set_state_drop_unmatched [OF d, of h self] xs by simp
qed

text \<open>
  The theorem on State 0 of \<open>example_heap\<close> (placeholder ids 10 and 11) with the dict
  \<open>{10: tensor 1, 99: tensor 0}\<close>: placeholder 0 is rebound from tensor 0 to tensor 1,
  placeholder 1 keeps its value, and the key 99 changes nothing.
\<close>

theorem set_state_rebinds_witness:
  "distinct (map fst [(10::int, 1::nat), (99, 0)]) \<and>
   placeholder_list example_heap 0 = [0, 1] \<and>
   ph_store (set_state example_heap 0 [(10, 1), (99, 0)]) 0 = \<lparr>ph_id = 10, tags = {}, child = Some 1\<rparr> \<and>
   ph_store (set_state example_heap 0 [(10, 1), (99, 0)]) 1 = \<lparr>ph_id = 11, tags = {''#1''}, child = Some 1\<rparr> \<and>
   ph_store (set_state example_heap 0 [(10, 1), (99, 0)]) 2 = \<lparr>ph_id = 12, tags = {''#outer''}, child = None\<rparr> \<and>
   set_state example_heap 0 [(10, 1), (99, 0)] = set_state example_heap 0 [(10, 1)]"
proof -
  have d: "distinct (map fst [(10::int, 1::nat), (99, 0)])" by simp
  have xs: "placeholder_list example_heap 0 = [0, 1]" by (rule example_lists)
  note t = set_state_rebinds [OF d xs]
  have t1: "\<And>a v. a \<in> set [0, 1] \<Longrightarrow> map_of [(10, 1), (99, 0)] (ph_id (ph_store example_heap a)) = Some v \<Longrightarrow>
      ph_store (set_state example_heap 0 [(10, 1), (99, 0)]) a = (ph_store example_heap a)\<lparr>child := Some v\<rparr>"
    and t2: "\<And>a. a \<in> set [0, 1] \<Longrightarrow> ph_id (ph_store example_heap a) \<notin> fst ` set [(10, 1), (99, 0::nat)] \<Longrightarrow>
      ph_store (set_state example_heap 0 [(10, 1), (99, 0)]) a = ph_store example_heap a"
    and t3: "\<And>a. a \<notin> set [0, 1] \<Longrightarrow>
      ph_store (set_state example_heap 0 [(10, 1), (99, 0)]) a = ph_store example_heap a"
    using t by blast+
  have 0: "ph_store (set_state example_heap 0 [(10, 1), (99, 0)]) 0 = (ph_store example_heap 0)\<lparr>child := Some 1\<rparr>"
    using t1 [of 0 1] by (simp add: example_heap_simps del: set_state.simps)
  have 1: "ph_store (set_state example_heap 0 [(10, 1), (99, 0)]) 1 = ph_store example_heap 1"
    using t2 [of 1] by (simp add: example_heap_simps del: set_state.simps)
  have 2: "ph_store (set_state example_heap 0 [(10, 1), (99, 0)]) 2 = ph_store example_heap 2"
    using t3 [of 2] by (simp del: set_state.simps)
  have 3: "set_state example_heap 0 [(10, 1), (99, 0)] =
           set_state example_heap 0 (filter (\<lambda>(k, v). k \<in> (\<lambda>a. ph_id (ph_store example_heap a)) ` set [0, 1]) [(10, 1), (99, 0)])"
    using t by blast
  have 4: "filter (\<lambda>(k, v). k \<in> (\<lambda>a. ph_id (ph_store example_heap a)) ` set [0, 1]) [(10, 1), (99, 0::nat)] = [(10, 1)]"
    by (simp add: example_heap_simps)
  show ?thesis using d xs 0 1 2 3 unfolding 4 by (simp add: example_heap_simps del: set_state.simps)
qed

section \<open>clone\_state\_dict\<close>














section \<open>tensors on an unbound placeholder\<close>

text \<open>
  C6. State 1 of \<open>example_heap\<close> holds one placeholder, which has no bound value. The
  claim has \<^verbatim>\<open>tensors\<close> fail there; the method has no check and returns the list with
  \<^verbatim>\<open>None\<close> in the place of the missing value.
\<close>

theorem tensors_unbound_returns:
  "placeholder_list example_heap 1 = [2] \<and>
   child (ph_store example_heap 2) = None \<and>
   tensors example_heap 1 = [None]"
  by (simp add: tensors_def example_heap_simps example_lists)

section \<open>The stages of detail\<close>

lemma new_placeholders_eq:
  "new_placeholders ws h =
     ([ph_next h ..< ph_next h + length ws],
      h\<lparr>ph_store := (\<lambda>a. if ph_next h \<le> a \<and> a < ph_next h + length ws
                          then mk_placeholder (ws ! (a - ph_next h)) else ph_store h a),
        ph_next := ph_next h + length ws\<rparr>)"
proof (induction ws arbitrary: h)
  case Nil
  have "(\<lambda>a. if ph_next h \<le> a \<and> a < ph_next h + length ([]::ph_wire list)
              then mk_placeholder ([] ! (a - ph_next h)) else ph_store h a) = ph_store h"
    by (rule ext) auto
  then show ?case by simp
next
  case (Cons w ws)
  define h1 where "h1 = h\<lparr>ph_store := (ph_store h)(ph_next h := mk_placeholder w), ph_next := Suc (ph_next h)\<rparr>"
  have step: "new_placeholders (w # ws) h =
      (ph_next h # fst (new_placeholders ws h1), snd (new_placeholders ws h1))"
    by (simp add: h1_def mk_placeholder_def Let_def split: prod.splits)
  have F: "(\<lambda>a. if ph_next h1 \<le> a \<and> a < ph_next h1 + length ws
                then mk_placeholder (ws ! (a - ph_next h1)) else ph_store h1 a) =
           (\<lambda>a. if ph_next h \<le> a \<and> a < ph_next h + length (w # ws)
                then mk_placeholder ((w # ws) ! (a - ph_next h)) else ph_store h a)"
    by (rule ext) (auto simp: h1_def nth_Cons' Suc_diff_le)
  have u: "ph_next h # [ph_next h1 ..< ph_next h1 + length ws] = [ph_next h ..< ph_next h + length (w # ws)]"
    by (simp add: h1_def upt_rec)
  have r: "h1\<lparr>ph_store := (\<lambda>a. if ph_next h \<le> a \<and> a < ph_next h + length (w # ws)
                then mk_placeholder ((w # ws) ! (a - ph_next h)) else ph_store h a),
              ph_next := ph_next h1 + length ws\<rparr> =
           h\<lparr>ph_store := (\<lambda>a. if ph_next h \<le> a \<and> a < ph_next h + length (w # ws)
                then mk_placeholder ((w # ws) ! (a - ph_next h)) else ph_store h a),
              ph_next := ph_next h + length (w # ws)\<rparr>"
    by (simp add: h1_def)
  show ?case unfolding step Cons.IH [of h1] fst_conv snd_conv F u r ..
qed

text \<open>What detailing a value sequence leaves: one new tensor per value, with the decoded contents.\<close>

lemma new_values_spec:
  "length (fst (new_values ts h)) = length ts \<and>
   map (map_option (tensor_store (snd (new_values ts h)))) (fst (new_values ts h)) = ts \<and>
   (\<forall>v. Some v \<in> set (fst (new_values ts h)) \<longrightarrow>
        tensor_next h \<le> v \<and> v < tensor_next (snd (new_values ts h))) \<and>
   tensor_next h \<le> tensor_next (snd (new_values ts h)) \<and>
   (\<forall>v<tensor_next h. tensor_store (snd (new_values ts h)) v = tensor_store h v) \<and>
   ph_store (snd (new_values ts h)) = ph_store h \<and> ph_next (snd (new_values ts h)) = ph_next h \<and>
   state_store (snd (new_values ts h)) = state_store h \<and> state_next (snd (new_values ts h)) = state_next h \<and>
   plan_store (snd (new_values ts h)) = plan_store h \<and> worker_store (snd (new_values ts h)) = worker_store h \<and>
   list_store (snd (new_values ts h)) = list_store h \<and> list_next (snd (new_values ts h)) = list_next h"
proof (induction ts arbitrary: h)
  case Nil
  show ?case by simp
next
  case (Cons t ts)
  show ?case
  proof (cases t)
    case None
    have step: "new_values (t # ts) h = (None # fst (new_values ts h), snd (new_values ts h))"
      using None by (simp split: prod.splits)
    show ?thesis unfolding step using Cons.IH [of h] None by auto
  next
    case (Some c)
    define h1 where "h1 = h\<lparr>tensor_store := (tensor_store h)(tensor_next h := c), tensor_next := Suc (tensor_next h)\<rparr>"
    have step: "new_values (t # ts) h = (Some (tensor_next h) # fst (new_values ts h1), snd (new_values ts h1))"
      using Some by (simp add: h1_def Let_def split: prod.splits)
    have h1: "tensor_next h1 = Suc (tensor_next h)" "tensor_store h1 = (tensor_store h)(tensor_next h := c)"
      "ph_store h1 = ph_store h" "ph_next h1 = ph_next h" "state_store h1 = state_store h"
      "state_next h1 = state_next h" "plan_store h1 = plan_store h" "worker_store h1 = worker_store h"
      "list_store h1 = list_store h" "list_next h1 = list_next h"
      by (simp_all add: h1_def)
    note ih = Cons.IH [of h1, unfolded h1]
    have c: "tensor_store (snd (new_values ts h1)) (tensor_next h) = c" using ih by simp
    show ?thesis unfolding step fst_conv snd_conv
      using ih c Some by (auto simp: less_Suc_eq_le)
  qed
qed

lemma register_obj_simps:
  "tensor_store (register_obj h w v k) = tensor_store h"
  "tensor_next (register_obj h w v k) = tensor_next h"
  "ph_store (register_obj h w v k) = ph_store h"
  "ph_next (register_obj h w v k) = ph_next h"
  "state_store (register_obj h w v k) = state_store h"
  "state_next (register_obj h w v k) = state_next h"
  "plan_store (register_obj h w v k) = plan_store h"
  "list_store (register_obj h w v k) = list_store h"
  "list_next (register_obj h w v k) = list_next h"
  "objects (worker_store (register_obj h w v k) w) = (objects (worker_store h w))(k \<mapsto> v)"
  "worker_init_plan (worker_store (register_obj h w v k) u) = worker_init_plan (worker_store h u)"
  "u \<noteq> w \<Longrightarrow> worker_store (register_obj h w v k) u = worker_store h u"
  by (simp_all add: register_obj_def)

lemma register_all_frame:
  "tensor_store (snd (register_all w es h)) = tensor_store h \<and>
   tensor_next (snd (register_all w es h)) = tensor_next h \<and>
   ph_store (snd (register_all w es h)) = ph_store h \<and>
   ph_next (snd (register_all w es h)) = ph_next h \<and>
   state_store (snd (register_all w es h)) = state_store h \<and>
   state_next (snd (register_all w es h)) = state_next h \<and>
   plan_store (snd (register_all w es h)) = plan_store h \<and>
   list_store (snd (register_all w es h)) = list_store h \<and>
   list_next (snd (register_all w es h)) = list_next h \<and>
   (\<forall>u. u \<noteq> w \<longrightarrow> worker_store (snd (register_all w es h)) u = worker_store h u) \<and>
   (\<forall>u. worker_init_plan (worker_store (snd (register_all w es h)) u) = worker_init_plan (worker_store h u))"
proof (induction es arbitrary: h)
  case Nil
  show ?case by simp
next
  case (Cons e es)
  show ?case
  proof (cases e)
    case None
    then show ?thesis by simp
  next
    case (Some v)
    show ?thesis
      using Cons.IH [of "register_obj h w v (tensor_id (tensor_store h v))"] Some
      by (simp add: register_obj_simps)
  qed
qed

lemma register_all_returns:
  assumes "\<forall>e\<in>set es. e \<noteq> None"
  shows "fst (register_all w es h) = None"
  using assms
proof (induction es arbitrary: h)
  case Nil
  show ?case by simp
next
  case (Cons e es)
  then obtain v where "e = Some v" by auto
  then show ?case using Cons by simp
qed

lemma register_all_other:
  assumes "\<forall>e\<in>set es. e \<noteq> None"
    and "\<forall>v. Some v \<in> set es \<longrightarrow> tensor_id (tensor_store h v) \<noteq> k"
  shows "objects (worker_store (snd (register_all w es h)) w) k = objects (worker_store h w) k"
  using assms
proof (induction es arbitrary: h)
  case Nil
  show ?case by simp
next
  case (Cons e es)
  then obtain v where v: "e = Some v" by auto
  let ?h1 = "register_obj h w v (tensor_id (tensor_store h v))"
  have a: "\<forall>e\<in>set es. e \<noteq> None" using Cons.prems(1) by simp
  have b: "\<forall>u. Some u \<in> set es \<longrightarrow> tensor_id (tensor_store ?h1 u) \<noteq> k"
    using Cons.prems(2) by (simp add: register_obj_simps)
  have "tensor_id (tensor_store h v) \<noteq> k" using Cons.prems(2) v by simp
  then show ?case using Cons.IH [OF a b] v by (simp add: register_obj_simps)
qed

lemma register_all_last:
  assumes "\<forall>e\<in>set es. e \<noteq> None"
    and "i < length es" and "es ! i = Some v"
    and "\<forall>j u. i < j \<and> j < length es \<and> es ! j = Some u \<longrightarrow>
           tensor_id (tensor_store h u) \<noteq> tensor_id (tensor_store h v)"
  shows "objects (worker_store (snd (register_all w es h)) w) (tensor_id (tensor_store h v)) = Some v"
  using assms
proof (induction es arbitrary: h i)
  case Nil
  then show ?case by simp
next
  case (Cons e es)
  then obtain u where u: "e = Some u" by auto
  let ?h1 = "register_obj h w u (tensor_id (tensor_store h u))"
  have a: "\<forall>e\<in>set es. e \<noteq> None" using Cons.prems(1) by simp
  show ?case
  proof (cases i)
    case 0
    then have uv: "u = v" using Cons.prems(3) u by simp
    have b: "\<forall>x. Some x \<in> set es \<longrightarrow> tensor_id (tensor_store ?h1 x) \<noteq> tensor_id (tensor_store h v)"
    proof (intro allI impI)
      fix x assume "Some x \<in> set es"
      then obtain j where j: "j < length es" "es ! j = Some x" by (auto simp: in_set_conv_nth)
      then have "i < Suc j \<and> Suc j < length (e # es) \<and> (e # es) ! Suc j = Some x" using 0 by simp
      then have "tensor_id (tensor_store h x) \<noteq> tensor_id (tensor_store h v)" using Cons.prems(4) by blast
      then show "tensor_id (tensor_store ?h1 x) \<noteq> tensor_id (tensor_store h v)"
        by (simp add: register_obj_simps)
    qed
    show ?thesis
      using register_all_other [OF a b, of w] u uv by (simp add: register_obj_simps)
  next
    case (Suc j)
    then have j: "j < length es" "es ! j = Some v" using Cons.prems(2,3) by simp_all
    have later: "\<forall>l x. j < l \<and> l < length es \<and> es ! l = Some x \<longrightarrow>
           tensor_id (tensor_store ?h1 x) \<noteq> tensor_id (tensor_store ?h1 v)"
    proof (intro allI impI)
      fix l x assume l: "j < l \<and> l < length es \<and> es ! l = Some x"
      then have "i < Suc l \<and> Suc l < length (e # es) \<and> (e # es) ! Suc l = Some x" using Suc by simp
      then have "tensor_id (tensor_store h x) \<noteq> tensor_id (tensor_store h v)" using Cons.prems(4) by blast
      then show "tensor_id (tensor_store ?h1 x) \<noteq> tensor_id (tensor_store ?h1 v)"
        by (simp add: register_obj_simps)
    qed
    show ?thesis
      using Cons.IH [OF a j later] u by (simp add: register_obj_simps)
  qed
qed

text \<open>Each value's id is a key of the registry afterwards: it is mapped to the value
  itself or to a later value of the sequence with the same id.\<close>

lemma register_all_entry:
  assumes "\<forall>e\<in>set es. e \<noteq> None"
    and "i < length es" and "es ! i = Some v"
  shows "\<exists>j u. i \<le> j \<and> j < length es \<and> es ! j = Some u \<and>
           tensor_id (tensor_store h u) = tensor_id (tensor_store h v) \<and>
           objects (worker_store (snd (register_all w es h)) w) (tensor_id (tensor_store h v)) = Some u"
  using assms
proof (induction es arbitrary: h i v)
  case Nil
  then show ?case by simp
next
  case (Cons e es)
  then obtain u where u: "e = Some u" by auto
  let ?h1 = "register_obj h w u (tensor_id (tensor_store h u))"
  have a: "\<forall>e\<in>set es. e \<noteq> None" using Cons.prems(1) by simp
  have st: "snd (register_all w (e # es) h) = snd (register_all w es ?h1)" using u by simp
  show ?case
  proof (cases i)
    case 0
    then have uv: "u = v" using Cons.prems(3) u by simp
    show ?thesis
    proof (cases "\<exists>x. Some x \<in> set es \<and> tensor_id (tensor_store h x) = tensor_id (tensor_store h v)")
      case True
      then obtain x l where l: "l < length es" "es ! l = Some x"
        and x: "tensor_id (tensor_store h x) = tensor_id (tensor_store h v)"
        by (auto simp: in_set_conv_nth)
      obtain j y where j: "l \<le> j" "j < length es" "es ! j = Some y"
        and y: "tensor_id (tensor_store ?h1 y) = tensor_id (tensor_store ?h1 x)"
        and o: "objects (worker_store (snd (register_all w es ?h1)) w) (tensor_id (tensor_store ?h1 x)) = Some y"
        using Cons.IH [OF a l, of ?h1] by blast
      have "i \<le> Suc j \<and> Suc j < length (e # es) \<and> (e # es) ! Suc j = Some y \<and>
            tensor_id (tensor_store h y) = tensor_id (tensor_store h v) \<and>
            objects (worker_store (snd (register_all w (e # es) h)) w) (tensor_id (tensor_store h v)) = Some y"
        using j y o x 0 unfolding st by (simp add: register_obj_simps)
      then show ?thesis by blast
    next
      case False
      then have b: "\<forall>x. Some x \<in> set es \<longrightarrow> tensor_id (tensor_store ?h1 x) \<noteq> tensor_id (tensor_store h v)"
        by (simp add: register_obj_simps)
      have "objects (worker_store (snd (register_all w (e # es) h)) w) (tensor_id (tensor_store h v)) = Some v"
        unfolding st using register_all_other [OF a b, of w] uv by (simp add: register_obj_simps)
      then have "i \<le> 0 \<and> 0 < length (e # es) \<and> (e # es) ! 0 = Some v \<and>
            tensor_id (tensor_store h v) = tensor_id (tensor_store h v) \<and>
            objects (worker_store (snd (register_all w (e # es) h)) w) (tensor_id (tensor_store h v)) = Some v"
        using 0 u uv by simp
      then show ?thesis by blast
    qed
  next
    case (Suc l)
    then have l: "l < length es" "es ! l = Some v" using Cons.prems(2,3) by simp_all
    obtain j y where j: "l \<le> j" "j < length es" "es ! j = Some y"
      and y: "tensor_id (tensor_store ?h1 y) = tensor_id (tensor_store ?h1 v)"
      and o: "objects (worker_store (snd (register_all w es ?h1)) w) (tensor_id (tensor_store ?h1 v)) = Some y"
      using Cons.IH [OF a l, of ?h1] by blast
    have "i \<le> Suc j \<and> Suc j < length (e # es) \<and> (e # es) ! Suc j = Some y \<and>
          tensor_id (tensor_store h y) = tensor_id (tensor_store h v) \<and>
          objects (worker_store (snd (register_all w (e # es) h)) w) (tensor_id (tensor_store h v)) = Some y"
      using j y o Suc unfolding st by (simp add: register_obj_simps)
    then show ?thesis by blast
  qed
qed

lemma instantiate_simps:
  "tensor_store (instantiate h p e) = tensor_store h"
  "tensor_next (instantiate h p e) = tensor_next h"
  "ph_next (instantiate h p e) = ph_next h"
  "state_store (instantiate h p e) = state_store h"
  "state_next (instantiate h p e) = state_next h"
  "plan_store (instantiate h p e) = plan_store h"
  "worker_store (instantiate h p e) = worker_store h"
  "list_store (instantiate h p e) = list_store h"
  "list_next (instantiate h p e) = list_next h"
  "ph_store (instantiate h p e) = (ph_store h)(p := (ph_store h p)\<lparr>child := e\<rparr>)"
  by (simp_all add: instantiate_def ph_update_def)

lemma instantiate_all_frame:
  "tensor_store (instantiate_all zs h) = tensor_store h \<and>
   tensor_next (instantiate_all zs h) = tensor_next h \<and>
   ph_next (instantiate_all zs h) = ph_next h \<and>
   state_store (instantiate_all zs h) = state_store h \<and>
   state_next (instantiate_all zs h) = state_next h \<and>
   plan_store (instantiate_all zs h) = plan_store h \<and>
   worker_store (instantiate_all zs h) = worker_store h \<and>
   list_store (instantiate_all zs h) = list_store h \<and>
   list_next (instantiate_all zs h) = list_next h"
proof (induction zs arbitrary: h)
  case Nil
  show ?case by simp
next
  case (Cons z zs)
  obtain p e where z: "z = (p, e)" by (cases z)
  show ?case using Cons.IH [of "instantiate h p e"] unfolding z by (simp add: instantiate_simps)
qed

lemma instantiate_all_other:
  assumes "a \<notin> fst ` set zs"
  shows "ph_store (instantiate_all zs h) a = ph_store h a"
  using assms
proof (induction zs arbitrary: h)
  case Nil
  show ?case by simp
next
  case (Cons z zs)
  obtain p e where z: "z = (p, e)" by (cases z)
  have "a \<notin> fst ` set zs" "a \<noteq> p" using Cons.prems z by auto
  then show ?case using Cons.IH [of "instantiate h p e"] unfolding z by (simp add: instantiate_simps)
qed

lemma instantiate_all_bound:
  assumes "distinct (map fst zs)" and "(p, e) \<in> set zs"
  shows "ph_store (instantiate_all zs h) p = (ph_store h p)\<lparr>child := e\<rparr>"
  using assms
proof (induction zs arbitrary: h)
  case Nil
  then show ?case by simp
next
  case (Cons z zs)
  obtain q f where z: "z = (q, f)" by (cases z)
  show ?case
  proof (cases "(p, e) = (q, f)")
    case True
    then have "p \<notin> fst ` set zs" using Cons.prems(1) z by simp
    then show ?thesis
      using instantiate_all_other [of p zs "instantiate h q f"] True unfolding z
      by (simp add: instantiate_simps)
  next
    case False
    then have m: "(p, e) \<in> set zs" using Cons.prems(2) z by auto
    then have "p \<noteq> q" using Cons.prems(1) z by force
    then show ?thesis
      using Cons.IH [OF _ m, of "instantiate h q f"] Cons.prems(1) unfolding z
      by (simp add: instantiate_simps)
  qed
qed

text \<open>Registration stops at the first element that is not a value.\<close>

lemma register_all_raises:
  assumes "j < length es" and "es ! j = None" and "\<forall>i<j. es ! i \<noteq> None"
  shows "register_all w es h = (Some AttributeError, snd (register_all w (take j es) h))"
  using assms
proof (induction es arbitrary: h j)
  case Nil
  then show ?case by simp
next
  case (Cons e es)
  show ?case
  proof (cases j)
    case 0
    then show ?thesis using Cons.prems by simp
  next
    case (Suc k)
    have "(e # es) ! 0 \<noteq> None" using Cons.prems(3) Suc by blast
    then obtain v where v: "e = Some v" by auto
    have k: "k < length es" "es ! k = None" using Cons.prems(1,2) Suc by simp_all
    have b: "\<forall>i<k. es ! i \<noteq> None"
    proof (intro allI impI)
      fix i assume "i < k"
      then have "Suc i < j" using Suc by simp
      then have "(e # es) ! Suc i \<noteq> None" using Cons.prems(3) by blast
      then show "es ! i \<noteq> None" by simp
    qed
    show ?thesis
      using Cons.IH [OF k b, of "register_obj h w v (tensor_id (tensor_store h v))"] v Suc by simp
  qed
qed

text \<open>A value is in the registry under its own id when its turn in the loop has passed.\<close>

lemma register_all_snoc:
  assumes "\<forall>e\<in>set es. e \<noteq> None"
  shows "register_all w (es @ [Some v]) h =
     (None, register_obj (snd (register_all w es h)) w v (tensor_id (tensor_store h v)))"
  using assms
proof (induction es arbitrary: h)
  case Nil
  show ?case by simp
next
  case (Cons e es)
  then obtain u where u: "e = Some u" by auto
  have a: "\<forall>e\<in>set es. e \<noteq> None" using Cons.prems by simp
  show ?case
    using Cons.IH [OF a, of "register_obj h w u (tensor_id (tensor_store h u))"] u
    by (simp add: register_obj_simps)
qed

lemma register_all_turn:
  assumes i: "i < length es" and v: "es ! i = Some v" and b: "\<forall>k<i. es ! k \<noteq> None"
  shows "objects (worker_store (snd (register_all w (take (Suc i) es) h)) w)
           (tensor_id (tensor_store h v)) = Some v"
    and "ph_store (snd (register_all w (take (Suc i) es) h)) = ph_store h"
proof -
  have t: "take (Suc i) es = take i es @ [Some v]" using i v by (simp add: take_Suc_conv_app_nth)
  have a: "\<forall>e\<in>set (take i es). e \<noteq> None"
  proof
    fix e assume "e \<in> set (take i es)"
    then obtain k where "k < i" "e = es ! k" using i by (auto simp: in_set_conv_nth)
    then show "e \<noteq> None" using b by simp
  qed
  show "objects (worker_store (snd (register_all w (take (Suc i) es) h)) w)
           (tensor_id (tensor_store h v)) = Some v"
    unfolding t register_all_snoc [OF a] by (simp add: register_obj_simps)
  show "ph_store (snd (register_all w (take (Suc i) es) h)) = ph_store h"
    using register_all_frame [of w "take (Suc i) es" h] by simp
qed

lemma State_init_simps:
  "fst (State_init ow l h) = state_next h"
  "owner (state_store (snd (State_init ow l h)) (state_next h)) = ow"
  "placeholder_list (snd (State_init ow l h)) (state_next h) = list_store h l"
  "ph_store (snd (State_init ow l h)) = ph_store h"
  "tensor_store (snd (State_init ow l h)) = tensor_store h"
  "worker_store (snd (State_init ow l h)) = worker_store h"
  "plan_store (snd (State_init ow l h)) = plan_store h"
  "\<forall>s<state_next h. state_store (snd (State_init ow l h)) s = state_store h s"
  "\<forall>k<list_next h. list_store (snd (State_init ow l h)) k = list_store h k"
  by (simp_all add: State_init_def new_list_def placeholder_list_def Let_def)

lemma detail_decode_eq:
  "detail_decode dec_phs dec_vals h t =
     (list_next (snd (new_placeholders (dec_phs (fst t)) h)),
      fst (new_values (dec_vals (snd t))
            (snd (new_list (fst (new_placeholders (dec_phs (fst t)) h))
                   (snd (new_placeholders (dec_phs (fst t)) h))))),
      snd (new_values (dec_vals (snd t))
            (snd (new_list (fst (new_placeholders (dec_phs (fst t)) h))
                   (snd (new_placeholders (dec_phs (fst t)) h))))))"
  by (simp add: detail_decode_def new_list_def Let_def split: prod.splits)

lemma detail_stages:
  assumes dd: "detail_decode dec_phs dec_vals h t = (l, els, h2)"
    and ph: "list_store h2 l = phs"
  shows "phs = [ph_next h ..< ph_next h + length (dec_phs (fst t))]"
    and "length els = length (dec_vals (snd t))"
    and "map (map_option (tensor_store h2)) els = dec_vals (snd t)"
    and "\<forall>i<length phs. ph_store h2 (phs ! i) = mk_placeholder (dec_phs (fst t) ! i)"
    and "\<forall>a<ph_next h. ph_store h2 a = ph_store h a"
    and "\<forall>v<tensor_next h. tensor_store h2 v = tensor_store h v"
    and "\<forall>v. Some v \<in> set els \<longrightarrow> tensor_next h \<le> v \<and> v < tensor_next h2"
    and "state_next h2 = state_next h"
    and "state_store h2 = state_store h"
    and "worker_store h2 = worker_store h"
    and "plan_store h2 = plan_store h"
    and "l = list_next h"
    and "\<forall>k. k \<noteq> l \<longrightarrow> list_store h2 k = list_store h k"
proof -
  let ?ws = "dec_phs (fst t)"
  let ?ts = "dec_vals (snd t)"
  define h0 where "h0 = snd (new_placeholders ?ws h)"
  define h1 where "h1 = snd (new_list (fst (new_placeholders ?ws h)) h0)"
  have l: "l = list_next h0"
    and els: "els = fst (new_values ?ts h1)" and h2: "h2 = snd (new_values ?ts h1)"
    using dd unfolding detail_decode_eq h1_def h0_def by simp_all
  have h0: "ph_store h0 = (\<lambda>a. if ph_next h \<le> a \<and> a < ph_next h + length ?ws
                          then mk_placeholder (?ws ! (a - ph_next h)) else ph_store h a)"
    "tensor_store h0 = tensor_store h" "tensor_next h0 = tensor_next h"
    "state_store h0 = state_store h" "state_next h0 = state_next h"
    "worker_store h0 = worker_store h" "plan_store h0 = plan_store h"
    "list_store h0 = list_store h" "list_next h0 = list_next h"
    unfolding h0_def new_placeholders_eq by simp_all
  have h1: "ph_store h1 = ph_store h0"
    "tensor_store h1 = tensor_store h" "tensor_next h1 = tensor_next h"
    "state_store h1 = state_store h" "state_next h1 = state_next h"
    "worker_store h1 = worker_store h" "plan_store h1 = plan_store h"
    "list_store h1 = (list_store h)(list_next h := [ph_next h ..< ph_next h + length ?ws])"
    unfolding h1_def new_list_def using h0 by (simp_all add: new_placeholders_eq)
  note nv = new_values_spec [of ?ts h1, folded els h2, unfolded h1(2-)]
  have ps: "ph_store h2 = ph_store h0" using nv h1(1) by simp
  have ls: "list_store h2 = (list_store h)(list_next h := [ph_next h ..< ph_next h + length ?ws])"
    using nv by simp
  show ll: "l = list_next h" using l h0 by simp
  show p: "phs = [ph_next h ..< ph_next h + length ?ws]" using ph unfolding ls ll by simp
  show "length els = length ?ts" using nv by simp
  show "map (map_option (tensor_store h2)) els = ?ts" using nv by simp
  show "\<forall>i<length phs. ph_store h2 (phs ! i) = mk_placeholder (?ws ! i)"
    unfolding ps h0(1) p by simp
  show "\<forall>a<ph_next h. ph_store h2 a = ph_store h a" unfolding ps h0(1) by simp
  show "\<forall>v<tensor_next h. tensor_store h2 v = tensor_store h v" using nv by simp
  show "\<forall>v. Some v \<in> set els \<longrightarrow> tensor_next h \<le> v \<and> v < tensor_next h2" using nv by simp
  show "state_next h2 = state_next h" using nv by simp
  show "state_store h2 = state_store h" using nv by simp
  show "worker_store h2 = worker_store h" using nv by simp
  show "plan_store h2 = plan_store h" using nv by simp
  show "\<forall>k. k \<noteq> l \<longrightarrow> list_store h2 k = list_store h k" unfolding ls ll by simp
qed

lemma detail_result:
  assumes dd: "detail_decode dec_phs dec_vals h t = (l, els, h2)"
    and ph: "list_store h2 l = phs"
    and vals: "\<forall>e\<in>set els. e \<noteq> None"
  shows "detail dec_phs dec_vals h w t =
     (Inr (state_next h),
      snd (State_init (WorkerOwner w) l (instantiate_all (zip phs els) (snd (register_all w els h2)))))"
proof -
  obtain r h3 where ra: "register_all w els h2 = (r, h3)" by (cases "register_all w els h2")
  have r: "r = None" using register_all_returns [OF vals, of w h2] ra by simp
  have f3: "state_next h3 = state_next h2" "list_store h3 = list_store h2"
    using register_all_frame [of w els h2] ra by simp_all
  have sn: "state_next (instantiate_all (zip phs els) h3) = state_next h"
    using instantiate_all_frame [of "zip phs els" h3] detail_stages(8) [OF dd ph] f3 by simp
  have "fst (State_init (WorkerOwner w) l (instantiate_all (zip phs els) h3)) = state_next h"
    unfolding State_init_simps sn ..
  then show ?thesis
    using dd ra r ph f3 by (simp add: detail_def Let_def prod_eq_iff split: prod.splits)
qed

text \<open>When an element of the detailed sequence is not a value, detail raises in the
  registration loop, in the store that loop has reached.\<close>

lemma detail_raises:
  assumes dd: "detail_decode dec_phs dec_vals h t = (l, els, h2)"
    and j: "j < length els" "els ! j = None" "\<forall>i<j. els ! i \<noteq> None"
  shows "detail dec_phs dec_vals h w t =
     (Inl AttributeError, snd (register_all w (take j els) h2))"
  using dd register_all_raises [OF j, of w h2] by (simp add: detail_def)

text \<open>The store the whole of detail leaves, stage by stage.\<close>

lemma detail_final:
  assumes dd: "detail_decode dec_phs dec_vals h t = (l, els, h2)"
    and ph: "list_store h2 l = phs"
    and vals: "\<forall>e\<in>set els. e \<noteq> None"
    and ra: "register_all w els h2 = (r, h3)"
    and d: "detail dec_phs dec_vals h w t = (res, h5)"
  shows "r = None" and "res = Inr (state_next h)"
    and "owner (state_store h5 (state_next h)) = WorkerOwner w \<and>
         placeholder_list h5 (state_next h) = phs"
    and "ph_store h3 = ph_store h2" and "tensor_store h3 = tensor_store h2"
    and "worker_store h5 = worker_store h3" and "tensor_store h5 = tensor_store h2"
    and "\<forall>i<min (length phs) (length els). ph_store h5 (phs ! i) = (ph_store h2 (phs ! i))\<lparr>child := els ! i\<rparr>"
    and "\<forall>i. length els \<le> i \<and> i < length phs \<longrightarrow> ph_store h5 (phs ! i) = ph_store h2 (phs ! i)"
proof -
  let ?zs = "zip phs els"
  let ?h4 = "instantiate_all ?zs h3"
  have h3: "h3 = snd (register_all w els h2)" using ra by simp
  have h5: "h5 = snd (State_init (WorkerOwner w) l ?h4)" and res: "res = Inr (state_next h)"
    using detail_result [OF dd ph vals, of w] d unfolding h3 by simp_all
  note f3 = register_all_frame [of w els h2, folded h3]
  note f4 = instantiate_all_frame [of ?zs h3]
  have sn: "state_next ?h4 = state_next h" using f4 f3 detail_stages(8) [OF dd ph] by simp
  have l4: "list_store ?h4 l = phs" using f4 f3 ph by simp
  have p5: "ph_store h5 = ph_store ?h4" unfolding h5 by (simp add: State_init_simps)
  have dphs: "distinct phs" unfolding detail_stages(1) [OF dd ph] by simp
  show "r = None" using register_all_returns [OF vals, of w h2] ra by simp
  show "res = Inr (state_next h)" by (rule res)
  show "owner (state_store h5 (state_next h)) = WorkerOwner w \<and>
         placeholder_list h5 (state_next h) = phs"
    unfolding h5 using State_init_simps(2,3) [of "WorkerOwner w" l ?h4] unfolding sn l4 by simp
  show "ph_store h3 = ph_store h2" using f3 by simp
  show "tensor_store h3 = tensor_store h2" using f3 by simp
  show "worker_store h5 = worker_store h3" unfolding h5 using f4 by (simp add: State_init_simps)
  show "tensor_store h5 = tensor_store h2" unfolding h5 using f4 f3 by (simp add: State_init_simps)
  show "\<forall>i<min (length phs) (length els). ph_store h5 (phs ! i) = (ph_store h2 (phs ! i))\<lparr>child := els ! i\<rparr>"
  proof (intro allI impI)
    fix i assume i: "i < min (length phs) (length els)"
    then have m: "(phs ! i, els ! i) \<in> set ?zs" by (auto simp: set_zip)
    have dz: "distinct (map fst ?zs)" using dphs by (simp add: map_fst_zip_take)
    show "ph_store h5 (phs ! i) = (ph_store h2 (phs ! i))\<lparr>child := els ! i\<rparr>"
      unfolding p5 using instantiate_all_bound [OF dz m, of h3] f3 by simp
  qed
  show "\<forall>i. length els \<le> i \<and> i < length phs \<longrightarrow> ph_store h5 (phs ! i) = ph_store h2 (phs ! i)"
  proof (intro allI impI)
    fix i assume i: "length els \<le> i \<and> i < length phs"
    have "phs ! i \<notin> fst ` set ?zs"
    proof
      assume "phs ! i \<in> fst ` set ?zs"
      then obtain j where j: "j < min (length phs) (length els)" "phs ! j = phs ! i"
        by (auto simp: set_zip)
      then have "j = i" using dphs i by (simp add: nth_eq_iff_index_eq)
      then show False using j i by simp
    qed
    then show "ph_store h5 (phs ! i) = ph_store h2 (phs ! i)"
      unfolding p5 using instantiate_all_other [of "phs ! i" ?zs h3] f3 by simp
  qed
qed

section \<open>detail on sequences of different lengths\<close>

lemma example_decode_parts:
  "fst (detail_decode (\<lambda>x. x) (\<lambda>x. x) example_heap example_tuple) = 3"
  "fst (snd (detail_decode (\<lambda>x. x) (\<lambda>x. x) example_heap example_tuple)) = [Some 2]"
  "list_store (snd (snd (detail_decode (\<lambda>x. x) (\<lambda>x. x) example_heap example_tuple))) 3 = [3, 4]"
  by (simp_all add: detail_decode_def new_list_def example_tuple_def example_heap_def Let_def)

lemma example_decode:
  "detail_decode (\<lambda>x. x) (\<lambda>x. x) example_heap example_tuple =
     (3, [Some 2], snd (snd (detail_decode (\<lambda>x. x) (\<lambda>x. x) example_heap example_tuple)))"
  by (simp add: prod_eq_iff example_decode_parts)

lemma example_decode_values_parts:
  "fst (detail_decode (\<lambda>x. x) (\<lambda>x. x) example_heap example_tuple_values) = 3"
  "fst (snd (detail_decode (\<lambda>x. x) (\<lambda>x. x) example_heap example_tuple_values)) = [Some 2, Some 3]"
  "list_store (snd (snd (detail_decode (\<lambda>x. x) (\<lambda>x. x) example_heap example_tuple_values))) 3 = [3]"
  by (simp_all add: detail_decode_def new_list_def example_tuple_values_def example_heap_def Let_def)

lemma example_decode_values:
  "detail_decode (\<lambda>x. x) (\<lambda>x. x) example_heap example_tuple_values =
     (3, [Some 2, Some 3],
      snd (snd (detail_decode (\<lambda>x. x) (\<lambda>x. x) example_heap example_tuple_values)))"
  by (simp add: prod_eq_iff example_decode_values_parts)

text \<open>
  C2, amended. For every worker and every pair, let the two halves detail to the
  placeholders \<open>phs\<close> (the contents of the new list \<open>l\<close>) and the values \<open>els\<close> (every
  element a value), of any two lengths. \<^verbatim>\<open>detail\<close> raises no error: it returns a State
  owned by the worker that holds all of \<open>phs\<close>; a placeholder at a position below the
  length of \<open>els\<close> is bound to the value at that position, and a placeholder beyond it
  is left unbound (so a value beyond the last placeholder is paired with none).
\<close>

theorem detail_mismatch_no_error:
  assumes dd: "detail_decode dec_phs dec_vals h state_tuple = (l, els, h2)"
    and ph: "list_store h2 l = phs"
    and vals: "\<forall>e\<in>set els. e \<noteq> None"
    and d: "detail dec_phs dec_vals h worker state_tuple = (res, h')"
  shows "length phs = length (dec_phs (fst state_tuple)) \<and>
     length els = length (dec_vals (snd state_tuple)) \<and>
     (\<exists>st. res = Inr st \<and> owner (state_store h' st) = WorkerOwner worker \<and>
           placeholder_list h' st = phs) \<and>
     (\<forall>i<length phs. child (ph_store h' (phs ! i)) = (if i < length els then els ! i else None))"
proof -
  obtain r h3 where ra: "register_all worker els h2 = (r, h3)" by (cases "register_all worker els h2")
  note f = detail_final [OF dd ph vals ra d]
  note s = detail_stages [OF dd ph]
  have len: "length phs = length (dec_phs (fst state_tuple))" unfolding s(1) by simp
  have "\<forall>i<length phs. child (ph_store h' (phs ! i)) = (if i < length els then els ! i else None)"
  proof (intro allI impI)
    fix i assume i: "i < length phs"
    show "child (ph_store h' (phs ! i)) = (if i < length els then els ! i else None)"
    proof (cases "i < length els")
      case True
      then have "i < min (length phs) (length els)" using i by simp
      then show ?thesis using f(8) True by simp
    next
      case False
      then have "ph_store h' (phs ! i) = ph_store h2 (phs ! i)" using f(9) i by simp
      then show ?thesis using s(4) i False by (simp add: mk_placeholder_def)
    qed
  qed
  then show ?thesis using len s(2) f(2) f(3) by blast
qed

text \<open>The theorem on \<open>example_tuple\<close>: two placeholders and one value.\<close>

theorem detail_mismatch_no_error_witness:
  "length (fst example_tuple) = 2 \<and> length (snd example_tuple) = 1 \<and>
   (\<exists>st. fst (detail (\<lambda>x. x) (\<lambda>x. x) example_heap 0 example_tuple) = Inr st \<and>
      owner (state_store (snd (detail (\<lambda>x. x) (\<lambda>x. x) example_heap 0 example_tuple)) st) =
        WorkerOwner 0 \<and>
      placeholder_list (snd (detail (\<lambda>x. x) (\<lambda>x. x) example_heap 0 example_tuple)) st = [3, 4]) \<and>
   child (ph_store (snd (detail (\<lambda>x. x) (\<lambda>x. x) example_heap 0 example_tuple)) 3) = Some 2 \<and>
   child (ph_store (snd (detail (\<lambda>x. x) (\<lambda>x. x) example_heap 0 example_tuple)) 4) = None"
proof -
  let ?d = "detail (\<lambda>x. x) (\<lambda>x. x) example_heap 0 example_tuple"
  have vals: "\<forall>e\<in>set [Some (2::nat)]. e \<noteq> None" by simp
  have d: "?d = (fst ?d, snd ?d)" by simp
  note t = detail_mismatch_no_error [OF example_decode example_decode_parts(3) vals d]
  have c: "\<And>i. i < length [3, 4::nat] \<Longrightarrow>
      child (ph_store (snd ?d) ([3, 4] ! i)) = (if i < length [Some (2::nat)] then [Some 2] ! i else None)"
    using t by blast
  have 3: "child (ph_store (snd ?d) 3) = Some 2" using c [of 0] by simp
  have 4: "child (ph_store (snd ?d) 4) = None" using c [of 1] by simp
  show ?thesis using t 3 4 by (simp add: example_tuple_def)
qed

text \<open>
  C2 as stated fails on \<open>example_tuple\<close>, whose halves detail to two placeholders and
  one value: \<^verbatim>\<open>detail\<close> returns the State 3 with both placeholders, the first bound to
  the value and the second unbound, and raises nothing.
\<close>

theorem detail_mismatch_counterexample:
  "list_store (snd (snd (detail_decode (\<lambda>x. x) (\<lambda>x. x) example_heap example_tuple)))
     (fst (detail_decode (\<lambda>x. x) (\<lambda>x. x) example_heap example_tuple)) = [3, 4] \<and>
   fst (snd (detail_decode (\<lambda>x. x) (\<lambda>x. x) example_heap example_tuple)) = [Some 2] \<and>
   fst (detail (\<lambda>x. x) (\<lambda>x. x) example_heap 0 example_tuple) = Inr 3 \<and>
   placeholder_list (snd (detail (\<lambda>x. x) (\<lambda>x. x) example_heap 0 example_tuple)) 3 = [3, 4] \<and>
   child (ph_store (snd (detail (\<lambda>x. x) (\<lambda>x. x) example_heap 0 example_tuple)) 3) = Some 2 \<and>
   child (ph_store (snd (detail (\<lambda>x. x) (\<lambda>x. x) example_heap 0 example_tuple)) 4) = None"
proof -
  let ?d = "detail (\<lambda>x. x) (\<lambda>x. x) example_heap 0 example_tuple"
  let ?h2 = "snd (snd (detail_decode (\<lambda>x. x) (\<lambda>x. x) example_heap example_tuple))"
  have vals: "\<forall>e\<in>set [Some (2::nat)]. e \<noteq> None" by simp
  have d: "?d = (fst ?d, snd ?d)" by simp
  have ra: "register_all 0 [Some 2] ?h2 = (fst (register_all 0 [Some 2] ?h2), snd (register_all 0 [Some 2] ?h2))"
    by simp
  note f = detail_final [OF example_decode example_decode_parts(3) vals ra d]
  note s = detail_stages [OF example_decode example_decode_parts(3)]
  have sn: "state_next example_heap = 3" by (simp add: example_heap_def)
  have 1: "fst ?d = Inr 3" using f(2) sn by simp
  have 2: "placeholder_list (snd ?d) 3 = [3, 4]" using f(3) sn by simp
  have 3: "child (ph_store (snd ?d) 3) = Some 2" using f(8) [rule_format, of 0] by simp
  have "ph_store (snd ?d) ([3, 4] ! 1) = ph_store ?h2 ([3, 4] ! 1)" using f(9) [rule_format, of 1] by simp
  moreover have "ph_store ?h2 ([3, 4] ! 1) = mk_placeholder (fst example_tuple ! 1)"
    using s(4) [rule_format, of 1] by simp
  ultimately have 4: "child (ph_store (snd ?d) 4) = None" by (simp add: mk_placeholder_def)
  show ?thesis using 1 2 3 4 by (simp add: example_decode_parts)
qed

section \<open>Registration before binding\<close>

lemma register_all_append:
  assumes "\<forall>e\<in>set es. e \<noteq> None"
  shows "register_all w (es @ fs) h = register_all w fs (snd (register_all w es h))"
  using assms
proof (induction es arbitrary: h)
  case Nil
  show ?case by simp
next
  case (Cons e es)
  then obtain u where u: "e = Some u" by auto
  have a: "\<forall>e\<in>set es. e \<noteq> None" using Cons.prems by simp
  show ?case
    using Cons.IH [OF a, of "register_obj h w u (tensor_id (tensor_store h u))"] u by simp
qed

lemma take_values:
  assumes "\<forall>k<j. es ! k \<noteq> None" and "j \<le> length es"
  shows "\<forall>e\<in>set (take j es). e \<noteq> None"
proof
  fix e assume "e \<in> set (take j es)"
  then obtain k where "k < j" "e = es ! k" using assms(2) by (auto simp: in_set_conv_nth)
  then show "e \<noteq> None" using assms(1) by simp
qed

lemma example_decode_none_parts:
  "fst (detail_decode (\<lambda>x. x) (\<lambda>x. x) example_heap example_tuple_none) = 3"
  "fst (snd (detail_decode (\<lambda>x. x) (\<lambda>x. x) example_heap example_tuple_none)) = [Some 2, None]"
  "list_store (snd (snd (detail_decode (\<lambda>x. x) (\<lambda>x. x) example_heap example_tuple_none))) 3 = [3]"
  by (simp_all add: detail_decode_def new_list_def example_tuple_none_def example_heap_def Let_def)

lemma example_decode_none:
  "detail_decode (\<lambda>x. x) (\<lambda>x. x) example_heap example_tuple_none =
     (3, [Some 2, None],
      snd (snd (detail_decode (\<lambda>x. x) (\<lambda>x. x) example_heap example_tuple_none)))"
  by (simp add: prod_eq_iff example_decode_none_parts)

lemma example_decode_twins_parts:
  "fst (detail_decode (\<lambda>x. x) (\<lambda>x. x) example_heap example_tuple_twins) = 3"
  "fst (snd (detail_decode (\<lambda>x. x) (\<lambda>x. x) example_heap example_tuple_twins)) = [Some 2, Some 3]"
  "list_store (snd (snd (detail_decode (\<lambda>x. x) (\<lambda>x. x) example_heap example_tuple_twins))) 3 = [3]"
  by (simp_all add: detail_decode_def new_list_def example_tuple_twins_def example_heap_def Let_def)

lemma example_decode_twins:
  "detail_decode (\<lambda>x. x) (\<lambda>x. x) example_heap example_tuple_twins =
     (3, [Some 2, Some 3],
      snd (snd (detail_decode (\<lambda>x. x) (\<lambda>x. x) example_heap example_tuple_twins)))"
  by (simp add: prod_eq_iff example_decode_twins_parts)

text \<open>
  C10, amended. Let the two halves detail to the placeholders \<open>phs\<close> (the contents of
  the new list \<open>l\<close>) and the sequence \<open>els\<close>, in the store \<open>h2\<close>, and let \<^verbatim>\<open>detail\<close>
  leave the store \<open>h5\<close>. The registration loop comes first and the binding loop after
  it.

  \<^item> When the registration loop has passed the value at position \<open>i\<close>, that value is in
    the worker's registry under its own id, and no placeholder has been bound; the
    loop goes on from that store with the elements after \<open>i\<close>.

  \<^item> If \<open>els\<close> has an element without an id (\<^verbatim>\<open>None\<close>), the first one at position \<open>j\<close>,
    \<^verbatim>\<open>detail\<close> raises in the registration loop: the values before \<open>j\<close> have been
    registered (the id of each is a key of the registry, mapped to a value before \<open>j\<close>
    with that id), no placeholder is bound, not even those at positions below \<open>j\<close>,
    and no State has been created.

  \<^item> If every element of \<open>els\<close> is a value, \<^verbatim>\<open>detail\<close> returns a State that holds
    \<open>phs\<close>, and the registry it leaves is the one the registration loop has left:
    the id of every value of \<open>els\<close>, at any position, paired with a placeholder or
    not, is a key of it, mapped to a value of \<open>els\<close> with that id at the same or a
    later position, to the value itself when no later value has its id. The
    placeholders at the positions below both lengths are bound to the values at their
    positions, and the placeholders beyond the values are as detailed.
\<close>

theorem detail_registers_then_binds:
  assumes dd: "detail_decode dec_phs dec_vals h state_tuple = (l, els, h2)"
    and ph: "list_store h2 l = phs"
    and d: "detail dec_phs dec_vals h worker state_tuple = (res, h5)"
  shows
    "(\<forall>i<length els. \<forall>v. els ! i = Some v \<and> (\<forall>k<i. els ! k \<noteq> None) \<longrightarrow>
        objects (worker_store (snd (register_all worker (take (Suc i) els) h2)) worker)
          (tensor_id (tensor_store h2 v)) = Some v \<and>
        ph_store (snd (register_all worker (take (Suc i) els) h2)) = ph_store h2 \<and>
        register_all worker els h2 =
          register_all worker (drop (Suc i) els) (snd (register_all worker (take (Suc i) els) h2))) \<and>
     (\<forall>j<length els. els ! j = None \<and> (\<forall>k<j. els ! k \<noteq> None) \<longrightarrow>
        res = Inl AttributeError \<and>
        h5 = snd (register_all worker (take j els) h2) \<and>
        ph_store h5 = ph_store h2 \<and>
        (\<forall>i<length phs. child (ph_store h5 (phs ! i)) = None) \<and>
        state_next h5 = state_next h \<and>
        (\<forall>i<j. \<forall>v. els ! i = Some v \<longrightarrow>
           (\<exists>k u. i \<le> k \<and> k < j \<and> els ! k = Some u \<and>
              tensor_id (tensor_store h2 u) = tensor_id (tensor_store h2 v) \<and>
              objects (worker_store h5 worker) (tensor_id (tensor_store h2 v)) = Some u))) \<and>
     ((\<forall>e\<in>set els. e \<noteq> None) \<longrightarrow>
        (\<exists>st. res = Inr st \<and> owner (state_store h5 st) = WorkerOwner worker \<and>
              placeholder_list h5 st = phs) \<and>
        worker_store h5 = worker_store (snd (register_all worker els h2)) \<and>
        (\<forall>i<length els. \<forall>v. els ! i = Some v \<longrightarrow>
           (\<exists>j u. i \<le> j \<and> j < length els \<and> els ! j = Some u \<and>
              tensor_id (tensor_store h2 u) = tensor_id (tensor_store h2 v) \<and>
              objects (worker_store h5 worker) (tensor_id (tensor_store h2 v)) = Some u) \<and>
           ((\<forall>j u. i < j \<and> j < length els \<and> els ! j = Some u \<longrightarrow>
                tensor_id (tensor_store h2 u) \<noteq> tensor_id (tensor_store h2 v)) \<longrightarrow>
            objects (worker_store h5 worker) (tensor_id (tensor_store h2 v)) = Some v)) \<and>
        (\<forall>i<min (length phs) (length els).
           ph_store h5 (phs ! i) = (ph_store h2 (phs ! i))\<lparr>child := els ! i\<rparr>) \<and>
        (\<forall>i. length els \<le> i \<and> i < length phs \<longrightarrow> ph_store h5 (phs ! i) = ph_store h2 (phs ! i)))"
proof (intro conjI)
  show "\<forall>i<length els. \<forall>v. els ! i = Some v \<and> (\<forall>k<i. els ! k \<noteq> None) \<longrightarrow>
        objects (worker_store (snd (register_all worker (take (Suc i) els) h2)) worker)
          (tensor_id (tensor_store h2 v)) = Some v \<and>
        ph_store (snd (register_all worker (take (Suc i) els) h2)) = ph_store h2 \<and>
        register_all worker els h2 =
          register_all worker (drop (Suc i) els) (snd (register_all worker (take (Suc i) els) h2))"
  proof (intro allI impI)
    fix i v
    assume i: "i < length els" and a: "els ! i = Some v \<and> (\<forall>k<i. els ! k \<noteq> None)"
    then have v: "els ! i = Some v" and b: "\<forall>k<i. els ! k \<noteq> None" by simp_all
    have "\<forall>k<Suc i. els ! k \<noteq> None" using v b by (auto simp: less_Suc_eq)
    then have tv: "\<forall>e\<in>set (take (Suc i) els). e \<noteq> None" using i by (intro take_values) simp_all
    have "register_all worker (take (Suc i) els @ drop (Suc i) els) h2 =
          register_all worker (drop (Suc i) els) (snd (register_all worker (take (Suc i) els) h2))"
      by (rule register_all_append [OF tv])
    then show "objects (worker_store (snd (register_all worker (take (Suc i) els) h2)) worker)
          (tensor_id (tensor_store h2 v)) = Some v \<and>
        ph_store (snd (register_all worker (take (Suc i) els) h2)) = ph_store h2 \<and>
        register_all worker els h2 =
          register_all worker (drop (Suc i) els) (snd (register_all worker (take (Suc i) els) h2))"
      using register_all_turn [OF i v b, of worker h2] by simp
  qed
next
  show "\<forall>j<length els. els ! j = None \<and> (\<forall>k<j. els ! k \<noteq> None) \<longrightarrow>
        res = Inl AttributeError \<and>
        h5 = snd (register_all worker (take j els) h2) \<and>
        ph_store h5 = ph_store h2 \<and>
        (\<forall>i<length phs. child (ph_store h5 (phs ! i)) = None) \<and>
        state_next h5 = state_next h \<and>
        (\<forall>i<j. \<forall>v. els ! i = Some v \<longrightarrow>
           (\<exists>k u. i \<le> k \<and> k < j \<and> els ! k = Some u \<and>
              tensor_id (tensor_store h2 u) = tensor_id (tensor_store h2 v) \<and>
              objects (worker_store h5 worker) (tensor_id (tensor_store h2 v)) = Some u))"
  proof (intro allI impI)
    fix j
    assume j: "j < length els" and a: "els ! j = None \<and> (\<forall>k<j. els ! k \<noteq> None)"
    then have n: "els ! j = None" and b: "\<forall>k<j. els ! k \<noteq> None" by simp_all
    have r: "detail dec_phs dec_vals h worker state_tuple =
        (Inl AttributeError, snd (register_all worker (take j els) h2))"
      by (rule detail_raises [OF dd j n b])
    have 1: "res = Inl AttributeError" and 2: "h5 = snd (register_all worker (take j els) h2)"
      using r d by simp_all
    note fr = register_all_frame [of worker "take j els" h2, folded 2]
    note s = detail_stages [OF dd ph]
    have 3: "ph_store h5 = ph_store h2" using fr by simp
    have 4: "\<forall>i<length phs. child (ph_store h5 (phs ! i)) = None"
      unfolding 3 using s(4) by (simp add: mk_placeholder_def)
    have 5: "state_next h5 = state_next h" using fr s(8) by simp
    have tv: "\<forall>e\<in>set (take j els). e \<noteq> None" using b j by (intro take_values) simp_all
    have 6: "\<forall>i<j. \<forall>v. els ! i = Some v \<longrightarrow>
           (\<exists>k u. i \<le> k \<and> k < j \<and> els ! k = Some u \<and>
              tensor_id (tensor_store h2 u) = tensor_id (tensor_store h2 v) \<and>
              objects (worker_store h5 worker) (tensor_id (tensor_store h2 v)) = Some u)"
    proof (intro allI impI)
      fix i v assume i: "i < j" and v: "els ! i = Some v"
      have i': "i < length (take j els)" and v': "take j els ! i = Some v" using i j v by simp_all
      obtain k u where k: "i \<le> k" "k < length (take j els)" "take j els ! k = Some u"
        and ku: "tensor_id (tensor_store h2 u) = tensor_id (tensor_store h2 v)"
        and o: "objects (worker_store (snd (register_all worker (take j els) h2)) worker)
                  (tensor_id (tensor_store h2 v)) = Some u"
        using register_all_entry [OF tv i' v', of h2 worker] by blast
      have "i \<le> k \<and> k < j \<and> els ! k = Some u \<and>
              tensor_id (tensor_store h2 u) = tensor_id (tensor_store h2 v) \<and>
              objects (worker_store h5 worker) (tensor_id (tensor_store h2 v)) = Some u"
        using k ku o j unfolding 2 by simp
      then show "\<exists>k u. i \<le> k \<and> k < j \<and> els ! k = Some u \<and>
              tensor_id (tensor_store h2 u) = tensor_id (tensor_store h2 v) \<and>
              objects (worker_store h5 worker) (tensor_id (tensor_store h2 v)) = Some u"
        by blast
    qed
    show "res = Inl AttributeError \<and>
        h5 = snd (register_all worker (take j els) h2) \<and>
        ph_store h5 = ph_store h2 \<and>
        (\<forall>i<length phs. child (ph_store h5 (phs ! i)) = None) \<and>
        state_next h5 = state_next h \<and>
        (\<forall>i<j. \<forall>v. els ! i = Some v \<longrightarrow>
           (\<exists>k u. i \<le> k \<and> k < j \<and> els ! k = Some u \<and>
              tensor_id (tensor_store h2 u) = tensor_id (tensor_store h2 v) \<and>
              objects (worker_store h5 worker) (tensor_id (tensor_store h2 v)) = Some u))"
      using 1 2 3 4 5 6 by blast
  qed
next
  show "(\<forall>e\<in>set els. e \<noteq> None) \<longrightarrow>
        (\<exists>st. res = Inr st \<and> owner (state_store h5 st) = WorkerOwner worker \<and>
              placeholder_list h5 st = phs) \<and>
        worker_store h5 = worker_store (snd (register_all worker els h2)) \<and>
        (\<forall>i<length els. \<forall>v. els ! i = Some v \<longrightarrow>
           (\<exists>j u. i \<le> j \<and> j < length els \<and> els ! j = Some u \<and>
              tensor_id (tensor_store h2 u) = tensor_id (tensor_store h2 v) \<and>
              objects (worker_store h5 worker) (tensor_id (tensor_store h2 v)) = Some u) \<and>
           ((\<forall>j u. i < j \<and> j < length els \<and> els ! j = Some u \<longrightarrow>
                tensor_id (tensor_store h2 u) \<noteq> tensor_id (tensor_store h2 v)) \<longrightarrow>
            objects (worker_store h5 worker) (tensor_id (tensor_store h2 v)) = Some v)) \<and>
        (\<forall>i<min (length phs) (length els).
           ph_store h5 (phs ! i) = (ph_store h2 (phs ! i))\<lparr>child := els ! i\<rparr>) \<and>
        (\<forall>i. length els \<le> i \<and> i < length phs \<longrightarrow> ph_store h5 (phs ! i) = ph_store h2 (phs ! i))"
  proof
    assume vals: "\<forall>e\<in>set els. e \<noteq> None"
    define h3 where "h3 = snd (register_all worker els h2)"
    have ra: "register_all worker els h2 = (fst (register_all worker els h2), h3)"
      by (simp add: h3_def)
    note f = detail_final [OF dd ph vals ra d]
    have reg: "\<forall>i<length els. \<forall>v. els ! i = Some v \<longrightarrow>
           (\<exists>j u. i \<le> j \<and> j < length els \<and> els ! j = Some u \<and>
              tensor_id (tensor_store h2 u) = tensor_id (tensor_store h2 v) \<and>
              objects (worker_store h5 worker) (tensor_id (tensor_store h2 v)) = Some u) \<and>
           ((\<forall>j u. i < j \<and> j < length els \<and> els ! j = Some u \<longrightarrow>
                tensor_id (tensor_store h2 u) \<noteq> tensor_id (tensor_store h2 v)) \<longrightarrow>
            objects (worker_store h5 worker) (tensor_id (tensor_store h2 v)) = Some v)"
    proof (intro allI impI conjI)
      fix i v assume i: "i < length els" and v: "els ! i = Some v"
      show "\<exists>j u. i \<le> j \<and> j < length els \<and> els ! j = Some u \<and>
           tensor_id (tensor_store h2 u) = tensor_id (tensor_store h2 v) \<and>
           objects (worker_store h5 worker) (tensor_id (tensor_store h2 v)) = Some u"
        unfolding f(6) h3_def by (rule register_all_entry [OF vals i v])
    next
      fix i v assume i: "i < length els" and v: "els ! i = Some v"
        and l: "\<forall>j u. i < j \<and> j < length els \<and> els ! j = Some u \<longrightarrow>
             tensor_id (tensor_store h2 u) \<noteq> tensor_id (tensor_store h2 v)"
      show "objects (worker_store h5 worker) (tensor_id (tensor_store h2 v)) = Some v"
        unfolding f(6) h3_def by (rule register_all_last [OF vals i v l])
    qed
    have ws: "worker_store h5 = worker_store (snd (register_all worker els h2))"
      using f(6) by (simp add: h3_def)
    show "(\<exists>st. res = Inr st \<and> owner (state_store h5 st) = WorkerOwner worker \<and>
              placeholder_list h5 st = phs) \<and>
        worker_store h5 = worker_store (snd (register_all worker els h2)) \<and>
        (\<forall>i<length els. \<forall>v. els ! i = Some v \<longrightarrow>
           (\<exists>j u. i \<le> j \<and> j < length els \<and> els ! j = Some u \<and>
              tensor_id (tensor_store h2 u) = tensor_id (tensor_store h2 v) \<and>
              objects (worker_store h5 worker) (tensor_id (tensor_store h2 v)) = Some u) \<and>
           ((\<forall>j u. i < j \<and> j < length els \<and> els ! j = Some u \<longrightarrow>
                tensor_id (tensor_store h2 u) \<noteq> tensor_id (tensor_store h2 v)) \<longrightarrow>
            objects (worker_store h5 worker) (tensor_id (tensor_store h2 v)) = Some v)) \<and>
        (\<forall>i<min (length phs) (length els).
           ph_store h5 (phs ! i) = (ph_store h2 (phs ! i))\<lparr>child := els ! i\<rparr>) \<and>
        (\<forall>i. length els \<le> i \<and> i < length phs \<longrightarrow> ph_store h5 (phs ! i) = ph_store h2 (phs ! i))"
      using f(2) f(3) ws reg f(8) f(9) by blast
  qed
qed

text \<open>
  The theorem on \<open>example_tuple_values\<close>, one placeholder and two values: both values
  are in the registry, the second one bound to no placeholder. And on
  \<open>example_tuple_none\<close>, one placeholder, a value and \<^verbatim>\<open>None\<close>: \<^verbatim>\<open>detail\<close> raises, the
  value is in the registry and the placeholder, which is at the position of the value,
  is not bound.
\<close>

theorem detail_registers_then_binds_witness:
  "(\<exists>st. fst (detail (\<lambda>x. x) (\<lambda>x. x) example_heap 0 example_tuple_values) = Inr st \<and>
      placeholder_list (snd (detail (\<lambda>x. x) (\<lambda>x. x) example_heap 0 example_tuple_values)) st = [3]) \<and>
   objects (worker_store (snd (detail (\<lambda>x. x) (\<lambda>x. x) example_heap 0 example_tuple_values)) 0) 200 = Some 2 \<and>
   objects (worker_store (snd (detail (\<lambda>x. x) (\<lambda>x. x) example_heap 0 example_tuple_values)) 0) 201 = Some 3 \<and>
   child (ph_store (snd (detail (\<lambda>x. x) (\<lambda>x. x) example_heap 0 example_tuple_values)) 3) = Some 2 \<and>
   fst (detail (\<lambda>x. x) (\<lambda>x. x) example_heap 0 example_tuple_none) = Inl AttributeError \<and>
   objects (worker_store (snd (detail (\<lambda>x. x) (\<lambda>x. x) example_heap 0 example_tuple_none)) 0) 200 = Some 2 \<and>
   child (ph_store (snd (detail (\<lambda>x. x) (\<lambda>x. x) example_heap 0 example_tuple_none)) 3) = None"
proof -
  let ?d = "detail (\<lambda>x. x) (\<lambda>x. x) example_heap 0 example_tuple_values"
  let ?h2 = "snd (snd (detail_decode (\<lambda>x. x) (\<lambda>x. x) example_heap example_tuple_values))"
  let ?e = "detail (\<lambda>x. x) (\<lambda>x. x) example_heap 0 example_tuple_none"
  let ?g2 = "snd (snd (detail_decode (\<lambda>x. x) (\<lambda>x. x) example_heap example_tuple_none))"
  have d: "?d = (fst ?d, snd ?d)" by simp
  have e: "?e = (fst ?e, snd ?e)" by simp
  note t = detail_registers_then_binds [OF example_decode_values example_decode_values_parts(3) d]
  note u = detail_registers_then_binds [OF example_decode_none example_decode_none_parts(3) e]
  have vals: "\<forall>e\<in>set [Some (2::nat), Some 3]. e \<noteq> None" by simp
  have "map (map_option (tensor_store ?h2)) [Some 2, Some 3] = snd example_tuple_values"
    using detail_stages(3) [OF example_decode_values example_decode_values_parts(3)] by simp
  then have t2: "tensor_store ?h2 2 = \<lparr>tensor_id = 200, payload = 9\<rparr>"
    and t3: "tensor_store ?h2 3 = \<lparr>tensor_id = 201, payload = 4\<rparr>"
    by (simp_all add: example_tuple_values_def)
  have "map (map_option (tensor_store ?g2)) [Some 2, None] = snd example_tuple_none"
    using detail_stages(3) [OF example_decode_none example_decode_none_parts(3)] by simp
  then have g2: "tensor_store ?g2 2 = \<lparr>tensor_id = 200, payload = 9\<rparr>"
    by (simp add: example_tuple_none_def)
  note tv = t [THEN conjunct2, THEN conjunct2, THEN mp, OF vals]
  have st: "\<exists>st. fst ?d = Inr st \<and> owner (state_store (snd ?d) st) = WorkerOwner 0 \<and>
      placeholder_list (snd ?d) st = [3]"
    by (rule tv [THEN conjunct1])
  have reg: "\<And>i v. i < length [Some (2::nat), Some 3] \<Longrightarrow> [Some 2, Some 3] ! i = Some v \<Longrightarrow>
      (\<forall>j u. i < j \<and> j < length [Some (2::nat), Some 3] \<and> [Some 2, Some 3] ! j = Some u \<longrightarrow>
             tensor_id (tensor_store ?h2 u) \<noteq> tensor_id (tensor_store ?h2 v)) \<Longrightarrow>
      objects (worker_store (snd ?d) 0) (tensor_id (tensor_store ?h2 v)) = Some v"
    using tv [THEN conjunct2, THEN conjunct2, THEN conjunct1] by blast
  have l0: "\<forall>j u. 0 < j \<and> j < length [Some (2::nat), Some 3] \<and> [Some 2, Some 3] ! j = Some u \<longrightarrow>
             tensor_id (tensor_store ?h2 u) \<noteq> tensor_id (tensor_store ?h2 2)"
    by (auto simp: less_Suc_eq t2 t3)
  have 1: "objects (worker_store (snd ?d) 0) 200 = Some 2"
    using reg [of 0 2, OF _ _ l0] by (simp add: t2)
  have 2: "objects (worker_store (snd ?d) 0) 201 = Some 3"
    using reg [of 1 3] by (simp add: t3)
  have b: "\<And>i. i < min (length [3::nat]) (length [Some (2::nat), Some 3]) \<Longrightarrow>
      ph_store (snd ?d) ([3] ! i) = (ph_store ?h2 ([3] ! i))\<lparr>child := [Some 2, Some 3] ! i\<rparr>"
    using tv [THEN conjunct2, THEN conjunct2, THEN conjunct2, THEN conjunct1] by blast
  have 3: "child (ph_store (snd ?d) 3) = Some 2" using b [of 0] by simp
  have n1: "(1::nat) < length [Some (2::nat), None]" by simp
  have n2: "[Some (2::nat), None] ! 1 = None \<and> (\<forall>k<1. [Some (2::nat), None] ! k \<noteq> None)"
    by simp
  note un = u [THEN conjunct2, THEN conjunct1, rule_format, OF n1 n2]
  have 4: "fst ?e = Inl AttributeError" by (rule un [THEN conjunct1])
  have "\<forall>i<length [3::nat]. child (ph_store (snd ?e) ([3] ! i)) = None"
    by (rule un [THEN conjunct2, THEN conjunct2, THEN conjunct2, THEN conjunct1])
  then have 5: "child (ph_store (snd ?e) 3) = None" by simp
  have en: "\<forall>i<1. \<forall>v. [Some (2::nat), None] ! i = Some v \<longrightarrow>
           (\<exists>k u. i \<le> k \<and> k < 1 \<and> [Some (2::nat), None] ! k = Some u \<and>
              tensor_id (tensor_store ?g2 u) = tensor_id (tensor_store ?g2 v) \<and>
              objects (worker_store (snd ?e) 0) (tensor_id (tensor_store ?g2 v)) = Some u)"
    by (rule un [THEN conjunct2, THEN conjunct2, THEN conjunct2, THEN conjunct2, THEN conjunct2])
  have "\<exists>k w. 0 \<le> k \<and> k < (1::nat) \<and> [Some (2::nat), None] ! k = Some w \<and>
              tensor_id (tensor_store ?g2 w) = tensor_id (tensor_store ?g2 2) \<and>
              objects (worker_store (snd ?e) 0) (tensor_id (tensor_store ?g2 2)) = Some w"
    using en [rule_format, of 0 2] by simp
  then obtain k w where k: "k < (1::nat)" "[Some (2::nat), None] ! k = Some w"
    and o: "objects (worker_store (snd ?e) 0) (tensor_id (tensor_store ?g2 2)) = Some w"
    by blast
  have "w = 2" using k by simp
  then have 6: "objects (worker_store (snd ?e) 0) 200 = Some 2" using o by (simp add: g2)
  have st': "\<exists>st. fst ?d = Inr st \<and> placeholder_list (snd ?d) st = [3]" using st by blast
  show ?thesis using st' 1 2 3 4 5 6 by simp
qed

text \<open>
  C10 as stated fails on \<open>example_tuple_twins\<close>, one placeholder and two values of the
  same id 200. The second registration replaces the first: when the binding loop starts,
  and when \<^verbatim>\<open>detail\<close> returns, the registry maps 200 to the second value, and the first
  value, which is bound to the placeholder, is not in the registry under its own id.
\<close>

theorem detail_registers_then_binds_counterexample:
  "fst (snd (detail_decode (\<lambda>x. x) (\<lambda>x. x) example_heap example_tuple_twins)) = [Some 2, Some 3] \<and>
   fst (detail (\<lambda>x. x) (\<lambda>x. x) example_heap 0 example_tuple_twins) = Inr 3 \<and>
   child (ph_store (snd (detail (\<lambda>x. x) (\<lambda>x. x) example_heap 0 example_tuple_twins)) 3) = Some 2 \<and>
   tensor_id (tensor_store (snd (detail (\<lambda>x. x) (\<lambda>x. x) example_heap 0 example_tuple_twins)) 2) = 200 \<and>
   objects (worker_store (snd (register_all 0 [Some 2, Some 3]
     (snd (snd (detail_decode (\<lambda>x. x) (\<lambda>x. x) example_heap example_tuple_twins))))) 0) 200 = Some 3 \<and>
   objects (worker_store (snd (detail (\<lambda>x. x) (\<lambda>x. x) example_heap 0 example_tuple_twins)) 0) 200 = Some 3"
proof -
  let ?d = "detail (\<lambda>x. x) (\<lambda>x. x) example_heap 0 example_tuple_twins"
  let ?h2 = "snd (snd (detail_decode (\<lambda>x. x) (\<lambda>x. x) example_heap example_tuple_twins))"
  let ?r = "register_all 0 [Some 2, Some 3] ?h2"
  have vals: "\<forall>e\<in>set [Some (2::nat), Some 3]. e \<noteq> None" by simp
  have d: "?d = (fst ?d, snd ?d)" by simp
  have ra: "?r = (fst ?r, snd ?r)" by simp
  note f = detail_final [OF example_decode_twins example_decode_twins_parts(3) vals ra d]
  have "map (map_option (tensor_store ?h2)) [Some 2, Some 3] = snd example_tuple_twins"
    using detail_stages(3) [OF example_decode_twins example_decode_twins_parts(3)] by simp
  then have t2: "tensor_store ?h2 2 = \<lparr>tensor_id = 200, payload = 9\<rparr>"
    and t3: "tensor_store ?h2 3 = \<lparr>tensor_id = 200, payload = 4\<rparr>"
    by (simp_all add: example_tuple_twins_def)
  have sn: "state_next example_heap = 3" by (simp add: example_heap_def)
  have 1: "fst ?d = Inr 3" using f(2) sn by simp
  have 2: "child (ph_store (snd ?d) 3) = Some 2" using f(8) [rule_format, of 0] by simp
  have 3: "tensor_id (tensor_store (snd ?d) 2) = 200" unfolding f(7) by (simp add: t2)
  have "objects (worker_store (snd ?r) 0) (tensor_id (tensor_store ?h2 3)) = Some 3"
    by (rule register_all_last [OF vals, of 1]) simp_all
  then have 4: "objects (worker_store (snd ?r) 0) 200 = Some 3" by (simp add: t3)
  have 5: "objects (worker_store (snd ?d) 0) 200 = Some 3" unfolding f(6) by (rule 4)
  show ?thesis using 1 2 3 4 5 by (simp add: example_decode_twins_parts)
qed

section \<open>Round trip\<close>

text \<open>Round trip: the values detailed from a simplified State, position by position.\<close>

lemma roundtrip_values:
  assumes cv: "\<forall>vs. dec_vals (enc_vals vs) = vs"
    and xs: "placeholder_list h st = xs"
    and b: "\<forall>a\<in>set xs. child (ph_store h a) \<noteq> None"
    and dd: "detail_decode dec_phs dec_vals g (simplify enc_phs enc_vals h st) = (l, els, g2)"
    and ph: "list_store g2 l = phs"
  shows "length els = length xs"
    and "\<forall>e\<in>set els. e \<noteq> None"
    and "\<forall>i<length xs. \<forall>v v'. child (ph_store h (xs ! i)) = Some v \<and> els ! i = Some v' \<longrightarrow>
           tensor_store g2 v' = tensor_store h v"
proof -
  let ?ts = "map (\<lambda>a. map_option (tensor_store h) (child (ph_store h a))) xs"
  have ts: "dec_vals (snd (simplify enc_phs enc_vals h st)) = ?ts"
    using cv xs by (simp add: simplify_def tensors_def)
  note s = detail_stages(2,3) [OF dd ph, unfolded ts]
  show l: "length els = length xs" using s(1) by simp
  have nth: "\<forall>i<length xs. map_option (tensor_store g2) (els ! i) =
       map_option (tensor_store h) (child (ph_store h (xs ! i)))"
  proof (intro allI impI)
    fix i assume i: "i < length xs"
    have "map (map_option (tensor_store g2)) els ! i = ?ts ! i" using s(2) by simp
    then show "map_option (tensor_store g2) (els ! i) =
       map_option (tensor_store h) (child (ph_store h (xs ! i)))" using i l by simp
  qed
  show "\<forall>e\<in>set els. e \<noteq> None"
  proof
    fix e assume "e \<in> set els"
    then obtain i where i: "i < length xs" "els ! i = e" using l by (auto simp: in_set_conv_nth)
    then have "child (ph_store h (xs ! i)) \<noteq> None" using b by simp
    then show "e \<noteq> None" using nth i by (cases e) auto
  qed
  show "\<forall>i<length xs. \<forall>v v'. child (ph_store h (xs ! i)) = Some v \<and> els ! i = Some v' \<longrightarrow>
           tensor_store g2 v' = tensor_store h v"
    using nth by auto
qed

text \<open>
  C4, amended. Let the codec's detail be a left inverse of its simplify on placeholder
  sequences and on value sequences, and let the State \<open>st\<close> of the store \<open>h\<close> hold the
  placeholders \<open>xs\<close>, all bound. Detailing the simplified State for a worker, in any
  store \<open>g\<close>, returns a State owned by the worker with as many placeholders. The
  placeholder at each position has the id and tags of the original and is bound to a
  value whose id and contents are those of the original value at that position; the id
  of that value is a key of the worker's registry, mapped to a reconstructed value with
  that id: to the value itself when no later value of the State has the same id.
\<close>

theorem detail_simplify_roundtrip:
  assumes cp: "\<forall>ps. dec_phs (enc_phs ps) = ps"
    and cv: "\<forall>vs. dec_vals (enc_vals vs) = vs"
    and xs: "placeholder_list h st = xs"
    and b: "\<forall>a\<in>set xs. child (ph_store h a) \<noteq> None"
    and d: "detail dec_phs dec_vals g worker (simplify enc_phs enc_vals h st) = (res, g')"
  shows "\<exists>st' ys. res = Inr st' \<and>
     owner (state_store g' st') = WorkerOwner worker \<and> placeholder_list g' st' = ys \<and>
     length ys = length xs \<and>
     (\<forall>i<length xs. \<exists>v v'.
        child (ph_store h (xs ! i)) = Some v \<and> child (ph_store g' (ys ! i)) = Some v' \<and>
        ph_id (ph_store g' (ys ! i)) = ph_id (ph_store h (xs ! i)) \<and>
        tags (ph_store g' (ys ! i)) = tags (ph_store h (xs ! i)) \<and>
        tensor_store g' v' = tensor_store h v \<and>
        (\<exists>u'. objects (worker_store g' worker) (tensor_id (tensor_store g' v')) = Some u' \<and>
              tensor_id (tensor_store g' u') = tensor_id (tensor_store g' v')) \<and>
        ((\<forall>j u. i < j \<and> j < length xs \<and> child (ph_store h (xs ! j)) = Some u \<longrightarrow>
             tensor_id (tensor_store h u) \<noteq> tensor_id (tensor_store h v)) \<longrightarrow>
         objects (worker_store g' worker) (tensor_id (tensor_store g' v')) = Some v'))"
proof -
  let ?t = "simplify enc_phs enc_vals h st"
  obtain l els g2 where dd: "detail_decode dec_phs dec_vals g ?t = (l, els, g2)"
    by (cases "detail_decode dec_phs dec_vals g ?t") auto
  define phs where "phs = list_store g2 l"
  have ph: "list_store g2 l = phs" by (simp add: phs_def)
  obtain r g3 where ra: "register_all worker els g2 = (r, g3)" by (cases "register_all worker els g2")
  have g3: "g3 = snd (register_all worker els g2)" using ra by simp
  note rv = roundtrip_values [OF cv xs b dd ph]
  note s = detail_stages [OF dd ph]
  note f = detail_final [OF dd ph rv(2) ra d]
  have ws: "dec_phs (fst ?t) = map (\<lambda>a. (ph_id (ph_store h a), tags (ph_store h a))) xs"
    using cp xs by (simp add: simplify_def)
  have lp: "length phs = length xs" unfolding s(1) ws by simp
  have each: "\<forall>i<length xs. \<exists>v v'.
        child (ph_store h (xs ! i)) = Some v \<and> child (ph_store g' (phs ! i)) = Some v' \<and>
        ph_id (ph_store g' (phs ! i)) = ph_id (ph_store h (xs ! i)) \<and>
        tags (ph_store g' (phs ! i)) = tags (ph_store h (xs ! i)) \<and>
        tensor_store g' v' = tensor_store h v \<and>
        (\<exists>u'. objects (worker_store g' worker) (tensor_id (tensor_store g' v')) = Some u' \<and>
              tensor_id (tensor_store g' u') = tensor_id (tensor_store g' v')) \<and>
        ((\<forall>j u. i < j \<and> j < length xs \<and> child (ph_store h (xs ! j)) = Some u \<longrightarrow>
             tensor_id (tensor_store h u) \<noteq> tensor_id (tensor_store h v)) \<longrightarrow>
         objects (worker_store g' worker) (tensor_id (tensor_store g' v')) = Some v')"
  proof (intro allI impI)
    fix i assume i: "i < length xs"
    obtain v where v: "child (ph_store h (xs ! i)) = Some v" using b i by fastforce
    have ie: "i < length els" using i rv(1) by simp
    have "els ! i \<in> set els" using ie by simp
    then have "els ! i \<noteq> None" using rv(2) by blast
    then obtain v' where v': "els ! i = Some v'" by auto
    have c: "tensor_store g2 v' = tensor_store h v" using rv(3) i v v' by blast
    have p: "ph_store g' (phs ! i) = (ph_store g2 (phs ! i))\<lparr>child := els ! i\<rparr>"
      using f(8) i lp ie by simp
    have m: "ph_store g2 (phs ! i) = mk_placeholder (dec_phs (fst ?t) ! i)" using s(4) i lp by simp
    have 1: "child (ph_store g' (phs ! i)) = Some v'" unfolding p using v' by simp
    have 2: "ph_id (ph_store g' (phs ! i)) = ph_id (ph_store h (xs ! i))"
      and 3: "tags (ph_store g' (phs ! i)) = tags (ph_store h (xs ! i))"
      unfolding p m ws using i by (simp_all add: mk_placeholder_def)
    have 4: "tensor_store g' v' = tensor_store h v" unfolding f(7) by (rule c)
    obtain j u where j: "i \<le> j" "j < length els" "els ! j = Some u"
      and ju: "tensor_id (tensor_store g2 u) = tensor_id (tensor_store g2 v')"
      and jo: "objects (worker_store g3 worker) (tensor_id (tensor_store g2 v')) = Some u"
      using register_all_entry [OF rv(2) ie v', of g2 worker] unfolding g3 by blast
    have 5: "\<exists>u'. objects (worker_store g' worker) (tensor_id (tensor_store g' v')) = Some u' \<and>
              tensor_id (tensor_store g' u') = tensor_id (tensor_store g' v')"
      unfolding f(6) f(7) using ju jo by blast
    have 6: "(\<forall>j u. i < j \<and> j < length xs \<and> child (ph_store h (xs ! j)) = Some u \<longrightarrow>
             tensor_id (tensor_store h u) \<noteq> tensor_id (tensor_store h v)) \<longrightarrow>
         objects (worker_store g' worker) (tensor_id (tensor_store g' v')) = Some v'"
    proof
      assume nl: "\<forall>j u. i < j \<and> j < length xs \<and> child (ph_store h (xs ! j)) = Some u \<longrightarrow>
             tensor_id (tensor_store h u) \<noteq> tensor_id (tensor_store h v)"
      have later: "\<forall>j u'. i < j \<and> j < length els \<and> els ! j = Some u' \<longrightarrow>
           tensor_id (tensor_store g2 u') \<noteq> tensor_id (tensor_store g2 v')"
      proof (intro allI impI)
        fix j u' assume a: "i < j \<and> j < length els \<and> els ! j = Some u'"
        then have jx: "j < length xs" using rv(1) by simp
        obtain u where u: "child (ph_store h (xs ! j)) = Some u" using b jx by fastforce
        have "tensor_store g2 u' = tensor_store h u" using rv(3) jx u a by blast
        moreover have "tensor_id (tensor_store h u) \<noteq> tensor_id (tensor_store h v)"
          using nl a jx u by blast
        ultimately show "tensor_id (tensor_store g2 u') \<noteq> tensor_id (tensor_store g2 v')"
          using c by simp
      qed
      show "objects (worker_store g' worker) (tensor_id (tensor_store g' v')) = Some v'"
        unfolding f(6) f(7) g3 by (rule register_all_last [OF rv(2) ie v' later])
    qed
    show "\<exists>v v'.
        child (ph_store h (xs ! i)) = Some v \<and> child (ph_store g' (phs ! i)) = Some v' \<and>
        ph_id (ph_store g' (phs ! i)) = ph_id (ph_store h (xs ! i)) \<and>
        tags (ph_store g' (phs ! i)) = tags (ph_store h (xs ! i)) \<and>
        tensor_store g' v' = tensor_store h v \<and>
        (\<exists>u'. objects (worker_store g' worker) (tensor_id (tensor_store g' v')) = Some u' \<and>
              tensor_id (tensor_store g' u') = tensor_id (tensor_store g' v')) \<and>
        ((\<forall>j u. i < j \<and> j < length xs \<and> child (ph_store h (xs ! j)) = Some u \<longrightarrow>
             tensor_id (tensor_store h u) \<noteq> tensor_id (tensor_store h v)) \<longrightarrow>
         objects (worker_store g' worker) (tensor_id (tensor_store g' v')) = Some v')"
      using v 1 2 3 4 5 6 by blast
  qed
  show ?thesis using f(2) f(3) lp each by blast
qed

text \<open>
  The theorem on State 0 of \<open>example_heap\<close> with the identity codec: the first new
  placeholder is bound to a value with the id 100 and the contents 7 of tensor 0, found
  in the registry of worker 0 under 100.
\<close>

theorem detail_simplify_roundtrip_witness:
  "\<exists>st' ys. fst (detail (\<lambda>x. x) (\<lambda>x. x) example_heap 0 (simplify (\<lambda>x. x) (\<lambda>x. x) example_heap 0)) = Inr st' \<and>
     owner (state_store (snd (detail (\<lambda>x. x) (\<lambda>x. x) example_heap 0
          (simplify (\<lambda>x. x) (\<lambda>x. x) example_heap 0))) st') = WorkerOwner 0 \<and>
     placeholder_list (snd (detail (\<lambda>x. x) (\<lambda>x. x) example_heap 0
          (simplify (\<lambda>x. x) (\<lambda>x. x) example_heap 0))) st' = ys \<and>
     length ys = 2 \<and>
     (\<exists>v'. child (ph_store (snd (detail (\<lambda>x. x) (\<lambda>x. x) example_heap 0
                (simplify (\<lambda>x. x) (\<lambda>x. x) example_heap 0))) (ys ! 0)) = Some v' \<and>
        tensor_store (snd (detail (\<lambda>x. x) (\<lambda>x. x) example_heap 0
                (simplify (\<lambda>x. x) (\<lambda>x. x) example_heap 0))) v' = \<lparr>tensor_id = 100, payload = 7\<rparr> \<and>
        objects (worker_store (snd (detail (\<lambda>x. x) (\<lambda>x. x) example_heap 0
                (simplify (\<lambda>x. x) (\<lambda>x. x) example_heap 0))) 0) 100 = Some v')"
proof -
  let ?g' = "snd (detail (\<lambda>x. x) (\<lambda>x. x) example_heap 0 (simplify (\<lambda>x. x) (\<lambda>x. x) example_heap 0))"
  let ?res = "fst (detail (\<lambda>x. x) (\<lambda>x. x) example_heap 0 (simplify (\<lambda>x. x) (\<lambda>x. x) example_heap 0))"
  have cp: "\<forall>ps::ph_wire list. (\<lambda>x. x) ((\<lambda>x. x) ps) = ps" by simp
  have cv: "\<forall>vs::nat tensor option list. (\<lambda>x. x) ((\<lambda>x. x) vs) = vs" by simp
  have xs: "placeholder_list example_heap 0 = [0, 1]" by (rule example_lists)
  have b: "\<forall>a\<in>set [0, 1]. child (ph_store example_heap a) \<noteq> None" by (simp add: example_heap_simps)
  have d: "detail (\<lambda>x. x) (\<lambda>x. x) example_heap 0 (simplify (\<lambda>x. x) (\<lambda>x. x) example_heap 0) = (?res, ?g')"
    by simp
  obtain st' ys where r: "?res = Inr st'"
    and s: "owner (state_store ?g' st') = WorkerOwner 0" "placeholder_list ?g' st' = ys"
    and l: "length ys = length [0, 1::nat]"
    and e: "\<forall>i<length [0, 1::nat]. \<exists>v v'.
        child (ph_store example_heap ([0, 1] ! i)) = Some v \<and> child (ph_store ?g' (ys ! i)) = Some v' \<and>
        ph_id (ph_store ?g' (ys ! i)) = ph_id (ph_store example_heap ([0, 1] ! i)) \<and>
        tags (ph_store ?g' (ys ! i)) = tags (ph_store example_heap ([0, 1] ! i)) \<and>
        tensor_store ?g' v' = tensor_store example_heap v \<and>
        (\<exists>u'. objects (worker_store ?g' 0) (tensor_id (tensor_store ?g' v')) = Some u' \<and>
              tensor_id (tensor_store ?g' u') = tensor_id (tensor_store ?g' v')) \<and>
        ((\<forall>j u. i < j \<and> j < length [0, 1::nat] \<and> child (ph_store example_heap ([0, 1] ! j)) = Some u \<longrightarrow>
             tensor_id (tensor_store example_heap u) \<noteq> tensor_id (tensor_store example_heap v)) \<longrightarrow>
         objects (worker_store ?g' 0) (tensor_id (tensor_store ?g' v')) = Some v')"
    using detail_simplify_roundtrip [OF cp cv xs b d] by blast
  obtain v v' where v: "child (ph_store example_heap ([0, 1] ! 0)) = Some v"
    and v': "child (ph_store ?g' (ys ! 0)) = Some v'"
    and c: "tensor_store ?g' v' = tensor_store example_heap v"
    and o: "(\<forall>j u. 0 < j \<and> j < length [0, 1::nat] \<and> child (ph_store example_heap ([0, 1] ! j)) = Some u \<longrightarrow>
             tensor_id (tensor_store example_heap u) \<noteq> tensor_id (tensor_store example_heap v)) \<longrightarrow>
         objects (worker_store ?g' 0) (tensor_id (tensor_store ?g' v')) = Some v'"
    using e [rule_format, of 0] by auto
  have v0: "v = 0" using v by (simp add: example_heap_simps)
  have c': "tensor_store ?g' v' = \<lparr>tensor_id = 100, payload = 7\<rparr>"
    using c v0 by (simp add: example_heap_simps)
  have nl: "\<forall>j u. 0 < j \<and> j < length [0, 1::nat] \<and> child (ph_store example_heap ([0, 1] ! j)) = Some u \<longrightarrow>
             tensor_id (tensor_store example_heap u) \<noteq> tensor_id (tensor_store example_heap v)"
    unfolding v0 by (auto simp: less_Suc_eq example_heap_simps)
  have "objects (worker_store ?g' 0) (tensor_id (tensor_store ?g' v')) = Some v'" using o nl by blast
  then have o': "objects (worker_store ?g' 0) 100 = Some v'" unfolding c' by simp
  have l2: "length ys = 2" using l by simp
  show ?thesis using r s l2 v' c' o' by blast
qed

lemma twin_heap_simps:
  "ph_next twin_heap = 3" "list_next twin_heap = 3" "state_next twin_heap = 3"
  "tensor_next twin_heap = 2"
  "state_store twin_heap = state_store example_heap"
  "plan_store twin_heap = plan_store example_heap"
  "worker_store twin_heap = worker_store example_heap"
  "tensor_store twin_heap = tensor_store example_heap"
  "list_store twin_heap = list_store example_heap"
  "ph_store twin_heap 0 = \<lparr>ph_id = 10, tags = {}, child = Some 0\<rparr>"
  "ph_store twin_heap 1 = \<lparr>ph_id = 11, tags = {''#1''}, child = Some 0\<rparr>"
  "ph_store twin_heap (Suc 0) = \<lparr>ph_id = 11, tags = {''#1''}, child = Some 0\<rparr>"
  by (simp_all add: twin_heap_def example_heap_def)

lemma twin_simplify:
  "simplify (\<lambda>x. x) (\<lambda>x. x) twin_heap 0 =
     ([(10, {}), (11, {''#1''})],
      [Some \<lparr>tensor_id = 100, payload = 7\<rparr>, Some \<lparr>tensor_id = 100, payload = 7\<rparr>])"
  by (simp add: simplify_def tensors_def placeholder_list_def twin_heap_simps example_heap_simps)

lemma twin_decode_parts:
  "fst (detail_decode (\<lambda>x. x) (\<lambda>x. x) twin_heap (simplify (\<lambda>x. x) (\<lambda>x. x) twin_heap 0)) = 3"
  "fst (snd (detail_decode (\<lambda>x. x) (\<lambda>x. x) twin_heap (simplify (\<lambda>x. x) (\<lambda>x. x) twin_heap 0))) =
     [Some 2, Some 3]"
  "list_store (snd (snd (detail_decode (\<lambda>x. x) (\<lambda>x. x) twin_heap
     (simplify (\<lambda>x. x) (\<lambda>x. x) twin_heap 0)))) 3 = [3, 4]"
  unfolding twin_simplify
  by (simp_all add: detail_decode_def new_list_def twin_heap_simps Let_def)

lemma twin_decode:
  "detail_decode (\<lambda>x. x) (\<lambda>x. x) twin_heap (simplify (\<lambda>x. x) (\<lambda>x. x) twin_heap 0) =
     (3, [Some 2, Some 3],
      snd (snd (detail_decode (\<lambda>x. x) (\<lambda>x. x) twin_heap (simplify (\<lambda>x. x) (\<lambda>x. x) twin_heap 0))))"
  by (simp add: prod_eq_iff twin_decode_parts)

text \<open>
  C4 as stated fails on State 0 of \<open>twin_heap\<close>, whose two placeholders are bound to the
  same tensor 0, of id 100, with the identity codec. The round trip reconstructs two
  values, the tensors 2 and 3, both of id 100. The first new placeholder is bound to
  tensor 2, and the registry of the worker maps 100 to tensor 3: tensor 2 is not
  registered under its own identity.
\<close>

theorem detail_simplify_roundtrip_counterexample:
  "placeholder_list twin_heap 0 = [0, 1] \<and>
   child (ph_store twin_heap 0) = Some 0 \<and> child (ph_store twin_heap 1) = Some 0 \<and>
   fst (detail (\<lambda>x. x) (\<lambda>x. x) twin_heap 0 (simplify (\<lambda>x. x) (\<lambda>x. x) twin_heap 0)) = Inr 3 \<and>
   placeholder_list (snd (detail (\<lambda>x. x) (\<lambda>x. x) twin_heap 0
      (simplify (\<lambda>x. x) (\<lambda>x. x) twin_heap 0))) 3 = [3, 4] \<and>
   child (ph_store (snd (detail (\<lambda>x. x) (\<lambda>x. x) twin_heap 0
      (simplify (\<lambda>x. x) (\<lambda>x. x) twin_heap 0))) 3) = Some 2 \<and>
   tensor_id (tensor_store (snd (detail (\<lambda>x. x) (\<lambda>x. x) twin_heap 0
      (simplify (\<lambda>x. x) (\<lambda>x. x) twin_heap 0))) 2) = 100 \<and>
   objects (worker_store (snd (detail (\<lambda>x. x) (\<lambda>x. x) twin_heap 0
      (simplify (\<lambda>x. x) (\<lambda>x. x) twin_heap 0))) 0) 100 = Some 3"
proof -
  let ?t = "simplify (\<lambda>x. x) (\<lambda>x. x) twin_heap 0"
  let ?d = "detail (\<lambda>x. x) (\<lambda>x. x) twin_heap 0 ?t"
  let ?h2 = "snd (snd (detail_decode (\<lambda>x. x) (\<lambda>x. x) twin_heap ?t))"
  let ?r = "register_all 0 [Some 2, Some 3] ?h2"
  have vals: "\<forall>e\<in>set [Some (2::nat), Some 3]. e \<noteq> None" by simp
  have d: "?d = (fst ?d, snd ?d)" by simp
  have ra: "?r = (fst ?r, snd ?r)" by simp
  note f = detail_final [OF twin_decode twin_decode_parts(3) vals ra d]
  have "map (map_option (tensor_store ?h2)) [Some 2, Some 3] = snd ?t"
    using detail_stages(3) [OF twin_decode twin_decode_parts(3)] by simp
  then have t2: "tensor_store ?h2 2 = \<lparr>tensor_id = 100, payload = 7\<rparr>"
    and t3: "tensor_store ?h2 3 = \<lparr>tensor_id = 100, payload = 7\<rparr>"
    unfolding twin_simplify by simp_all
  have 0: "placeholder_list twin_heap 0 = [0, 1]"
    by (simp add: placeholder_list_def twin_heap_simps example_heap_simps)
  have 1: "fst ?d = Inr 3" using f(2) by (simp add: twin_heap_simps)
  have 2: "placeholder_list (snd ?d) 3 = [3, 4]" using f(3) by (simp add: twin_heap_simps)
  have 3: "child (ph_store (snd ?d) 3) = Some 2" using f(8) [rule_format, of 0] by simp
  have 4: "tensor_id (tensor_store (snd ?d) 2) = 100" unfolding f(7) by (simp add: t2)
  have "objects (worker_store (snd ?r) 0) (tensor_id (tensor_store ?h2 3)) = Some 3"
    by (rule register_all_last [OF vals, of 1]) simp_all
  then have 5: "objects (worker_store (snd ?d) 0) 100 = Some 3" unfolding f(6) by (simp add: t3)
  show ?thesis using 0 1 2 3 4 5 by (simp add: twin_heap_simps)
qed

end
